theory Spec2Isabelle
  imports Complex_Main
begin

section \<open>StatusBroadcastHub (websocket\_handler.py)\<close>

text \<open>
  The hub is the class \<open>ConnectionManager\<close>: a dictionary from client ids to their
  WebSocket objects and a dictionary from document ids to the set of subscribed client
  ids. Dictionaries are maps. A Python \<open>set\<close> of client ids is a duplicate-free list:
  the code only adds, discards, tests membership and emptiness, and iterates, and the
  list gives the iteration an order (Python's own order is unspecified; nothing below
  depends on it). The type \<open>'ws\<close> stands for the WebSocket objects.

  The coroutines are modelled as atomic functions: one call runs to its end before the
  next operation on the hub starts.
\<close>

type_synonym client_id = string
type_synonym document_id = string

definition set_add :: "'a \<Rightarrow> 'a list \<Rightarrow> 'a list" where
  "set_add x xs = (if x \<in> set xs then xs else xs @ [x])"

definition set_discard :: "'a \<Rightarrow> 'a list \<Rightarrow> 'a list" where
  "set_discard x xs = removeAll x xs"

record 'ws ConnectionManager =
  active_connections :: "client_id \<rightharpoonup> 'ws"
  document_subscribers :: "document_id \<rightharpoonup> client_id list"

definition new_manager :: "'ws ConnectionManager" where
  "new_manager = \<lparr>active_connections = Map.empty, document_subscribers = Map.empty\<rparr>"

text \<open>\<open>connect\<close>: \<open>await websocket.accept()\<close> is taken to succeed.\<close>

definition connect :: "'ws ConnectionManager \<Rightarrow> 'ws \<Rightarrow> client_id \<Rightarrow> 'ws ConnectionManager" where
  "connect m websocket c = m\<lparr>active_connections := (active_connections m)(c \<mapsto> websocket)\<rparr>"

text \<open>
  \<open>disconnect\<close>: a client that is not connected changes nothing; otherwise it leaves
  the connection table and every subscriber set (the sets stay in the dictionary, also
  when they become empty).
\<close>

definition disconnect :: "'ws ConnectionManager \<Rightarrow> client_id \<Rightarrow> 'ws ConnectionManager" where
  "disconnect m c =
     (if c \<in> dom (active_connections m)
      then m\<lparr>active_connections := (active_connections m)(c := None),
             document_subscribers :=
               (\<lambda>d. map_option (set_discard c) (document_subscribers m d))\<rparr>
      else m)"

definition subscribe_to_document ::
  "'ws ConnectionManager \<Rightarrow> client_id \<Rightarrow> document_id \<Rightarrow> 'ws ConnectionManager" where
  "subscribe_to_document m c d =
     (let subs = (case document_subscribers m d of None \<Rightarrow> [] | Some s \<Rightarrow> s)
      in m\<lparr>document_subscribers := (document_subscribers m)(d \<mapsto> set_add c subs)\<rparr>)"

definition unsubscribe_from_document ::
  "'ws ConnectionManager \<Rightarrow> client_id \<Rightarrow> document_id \<Rightarrow> 'ws ConnectionManager" where
  "unsubscribe_from_document m c d =
     (case document_subscribers m d of
        None \<Rightarrow> m
      | Some s \<Rightarrow>
          (let s' = set_discard c s
           in if s' = []
              then m\<lparr>document_subscribers := (document_subscribers m)(d := None)\<rparr>
              else m\<lparr>document_subscribers := (document_subscribers m)(d \<mapsto> s')\<rparr>))"

text \<open>
  The loop of \<open>broadcast_to_document_subscribers\<close> over the subscribers of the
  document. \<open>send_ok ws\<close> says whether \<open>ws.send_text\<close> returns (otherwise it
  raises). The result is the list of clients the message was sent to and the list
  \<open>disconnected_clients\<close> of those whose send raised.
\<close>

fun send_loop ::
  "(client_id \<rightharpoonup> 'ws) \<Rightarrow> ('ws \<Rightarrow> bool) \<Rightarrow> client_id list \<Rightarrow> client_id list \<times> client_id list" where
  "send_loop conns send_ok [] = ([], [])"
| "send_loop conns send_ok (c # cs) =
     (case conns c of
        None \<Rightarrow> send_loop conns send_ok cs
      | Some ws \<Rightarrow>
          (let (sent, failed) = send_loop conns send_ok cs
           in if send_ok ws then (c # sent, failed) else (sent, c # failed)))"

record 'ws broadcast_result =
  manager_after :: "'ws ConnectionManager"
  delivered :: "client_id list"
  disconnected_clients :: "client_id list"

definition broadcast_to_document_subscribers ::
  "'ws ConnectionManager \<Rightarrow> document_id \<Rightarrow> ('ws \<Rightarrow> bool) \<Rightarrow> 'ws broadcast_result" where
  "broadcast_to_document_subscribers m d send_ok =
     (case document_subscribers m d of
        None \<Rightarrow> \<lparr>manager_after = m, delivered = [], disconnected_clients = []\<rparr>
      | Some subs \<Rightarrow>
          (let (sent, failed) = send_loop (active_connections m) send_ok subs
           in \<lparr>manager_after = fold (\<lambda>c m'. disconnect m' c) failed m,
               delivered = sent, disconnected_clients = failed\<rparr>))"

text \<open>
  \<open>ConversionStatusTracker\<close>: the latest status of each document, and the hub it
  publishes through. The timestamp (\<open>datetime.now().isoformat()\<close>) is an argument.
\<close>

record status_update =
  su_type :: string
  su_documentId :: document_id
  su_status :: string
  su_progress :: int
  su_message :: string
  su_timestamp :: string
  su_metadata :: "(string \<times> string) list"

record 'ws ConversionStatusTracker =
  connection_manager :: "'ws ConnectionManager"
  conversion_status :: "document_id \<rightharpoonup> status_update"

definition update_status ::
  "'ws ConversionStatusTracker \<Rightarrow> document_id \<Rightarrow> string \<Rightarrow> int \<Rightarrow> string \<Rightarrow>
   (string \<times> string) list \<Rightarrow> string \<Rightarrow> ('ws \<Rightarrow> bool) \<Rightarrow>
   'ws ConversionStatusTracker \<times> (client_id \<times> status_update) list" where
  "update_status t d status progress message metadata now send_ok =
     (let upd = \<lparr>su_type = ''conversion_status'', su_documentId = d, su_status = status,
                  su_progress = progress, su_message = message, su_timestamp = now,
                  su_metadata = metadata\<rparr>;
          r = broadcast_to_document_subscribers (connection_manager t) d send_ok
      in (t\<lparr>connection_manager := manager_after r,
             conversion_status := (conversion_status t)(d \<mapsto> upd)\<rparr>,
          map (\<lambda>c. (c, upd)) (delivered r @ disconnected_clients r)))"

text \<open>
  The operations a hub receives, and a run of them from a tracker state. The run
  collects, in order, every (client, status update) pair for which \<open>send_text\<close> was
  called.
\<close>

datatype 'ws hub_op =
    Connect 'ws client_id
  | Disconnect client_id
  | Subscribe client_id document_id
  | Unsubscribe client_id document_id
  | Publish document_id string int string "(string \<times> string) list" string "'ws \<Rightarrow> bool"

fun hub_step ::
  "'ws ConversionStatusTracker \<Rightarrow> 'ws hub_op \<Rightarrow>
   'ws ConversionStatusTracker \<times> (client_id \<times> status_update) list" where
  "hub_step t (Connect ws c) =
     (t\<lparr>connection_manager := connect (connection_manager t) ws c\<rparr>, [])"
| "hub_step t (Disconnect c) =
     (t\<lparr>connection_manager := disconnect (connection_manager t) c\<rparr>, [])"
| "hub_step t (Subscribe c d) =
     (t\<lparr>connection_manager := subscribe_to_document (connection_manager t) c d\<rparr>, [])"
| "hub_step t (Unsubscribe c d) =
     (t\<lparr>connection_manager := unsubscribe_from_document (connection_manager t) c d\<rparr>, [])"
| "hub_step t (Publish d status progress message metadata now send_ok) =
     update_status t d status progress message metadata now send_ok"

fun hub_run ::
  "'ws ConversionStatusTracker \<Rightarrow> 'ws hub_op list \<Rightarrow>
   'ws ConversionStatusTracker \<times> (client_id \<times> status_update) list" where
  "hub_run t [] = (t, [])"
| "hub_run t (op # ops) =
     (let (t', sends) = hub_step t op;
          (t'', sends') = hub_run t' ops
      in (t'', sends @ sends'))"

definition subscribers_of :: "'ws ConnectionManager \<Rightarrow> document_id \<Rightarrow> client_id set" where
  "subscribers_of m d = (case document_subscribers m d of None \<Rightarrow> {} | Some s \<Rightarrow> set s)"

text \<open>
  A concrete hub for evaluating the operations: clients \<open>a\<close> and \<open>b\<close> are
  connected and both subscribed to \<open>doc1\<close>; two status updates are published.
\<close>

definition hub_example :: "unit ConnectionManager" where
  "hub_example =
     subscribe_to_document (subscribe_to_document (connect (connect new_manager () ''a'') () ''b'') ''a'' ''doc1'') ''b'' ''doc1''"

definition tracker_example :: "unit ConversionStatusTracker" where
  "tracker_example = \<lparr>connection_manager = hub_example, conversion_status = Map.empty\<rparr>"

definition ops_example :: "unit hub_op list" where
  "ops_example =
     [Publish ''doc1'' ''processing'' 0 ''Starting PDF conversion...'' [] ''t1'' (\<lambda>_. True),
      Publish ''doc1'' ''completed'' 100 ''Conversion completed successfully'' [] ''t2'' (\<lambda>_. True)]"

subsection \<open>Subscriber sets and the operations on them\<close>

lemma set_add_set: "set (set_add x xs) = insert x (set xs)"
  by (auto simp: set_add_def)

lemma set_add_idem: "set_add x (set_add x xs) = set_add x xs"
  by (simp add: set_add_def)

lemma set_discard_set: "set (set_discard x xs) = set xs - {x}"
  by (auto simp: set_discard_def)

lemma set_discard_Nil: "set_discard x xs = [] \<longleftrightarrow> set xs \<subseteq> {x}"
proof -
  have "set_discard x xs = [] \<longleftrightarrow> set (set_discard x xs) = {}" by simp
  then show ?thesis by (auto simp: set_discard_set)
qed

lemma subscribers_of_connect: "subscribers_of (connect m ws c) d = subscribers_of m d"
  by (simp add: subscribers_of_def connect_def)

lemma subscribers_of_disconnect: "subscribers_of (disconnect m c) d \<subseteq> subscribers_of m d"
  by (auto simp: subscribers_of_def disconnect_def set_discard_set split: option.splits)

lemma subscribers_of_subscribe:
  "subscribers_of (subscribe_to_document m c d) d' =
     (if d' = d then insert c (subscribers_of m d) else subscribers_of m d')"
  by (auto simp: subscribers_of_def subscribe_to_document_def set_add_set Let_def split: option.splits)

lemma subscribers_of_unsubscribe:
  "subscribers_of (unsubscribe_from_document m c d) d' =
     (if d' = d then subscribers_of m d - {c} else subscribers_of m d')"
  by (auto simp: subscribers_of_def unsubscribe_from_document_def Let_def set_discard_set
      set_discard_Nil split: option.splits if_splits)

lemma subscribers_of_fold_disconnect:
  "subscribers_of (fold (\<lambda>c m'. disconnect m' c) cs m) d \<subseteq> subscribers_of m d"
proof (induction cs arbitrary: m)
  case Nil
  show ?case by simp
next
  case (Cons c cs)
  have "subscribers_of (fold (\<lambda>c m'. disconnect m' c) cs (disconnect m c)) d
          \<subseteq> subscribers_of (disconnect m c) d"
    by (rule Cons.IH)
  also have "\<dots> \<subseteq> subscribers_of m d"
    by (rule subscribers_of_disconnect)
  finally show ?case by simp
qed

lemma send_loop_delivered:
  "fst (send_loop conns ok cs) =
     filter (\<lambda>c. case conns c of None \<Rightarrow> False | Some ws \<Rightarrow> ok ws) cs"
  by (induction cs) (simp_all add: split_beta split: option.splits)

lemma send_loop_failed:
  "snd (send_loop conns ok cs) =
     filter (\<lambda>c. case conns c of None \<Rightarrow> False | Some ws \<Rightarrow> \<not> ok ws) cs"
  by (induction cs) (simp_all add: split_beta split: option.splits)

lemma send_loop_exact:
  "set (fst (send_loop conns ok cs)) \<union> set (snd (send_loop conns ok cs)) = set cs \<inter> dom conns"
  unfolding send_loop_delivered send_loop_failed
  by (auto split: option.splits)

lemma broadcast_targets:
  "set (delivered (broadcast_to_document_subscribers m d ok)) \<union>
   set (disconnected_clients (broadcast_to_document_subscribers m d ok))
     = subscribers_of m d \<inter> dom (active_connections m)"
proof (cases "document_subscribers m d")
  case None
  then show ?thesis by (simp add: broadcast_to_document_subscribers_def subscribers_of_def)
next
  case (Some subs)
  then show ?thesis
    by (simp add: broadcast_to_document_subscribers_def subscribers_of_def split_beta
        send_loop_exact)
qed

lemma broadcast_manager_after:
  "subscribers_of (manager_after (broadcast_to_document_subscribers m d ok)) d'
     \<subseteq> subscribers_of m d'"
proof (cases "document_subscribers m d")
  case None
  then show ?thesis by (simp add: broadcast_to_document_subscribers_def)
next
  case (Some subs)
  then show ?thesis
    by (simp add: broadcast_to_document_subscribers_def split_beta
        subscribers_of_fold_disconnect)
qed

lemma update_status_sends:
  assumes "(c, u) \<in> set (snd (update_status t d status progress message metadata now ok))"
  shows "c \<in> subscribers_of (connection_manager t) d \<inter> dom (active_connections (connection_manager t))
         \<and> su_documentId u = d"
proof -
  let ?r = "broadcast_to_document_subscribers (connection_manager t) d ok"
  from assms have "c \<in> set (delivered ?r) \<union> set (disconnected_clients ?r)"
    and doc: "su_documentId u = d"
    by (auto simp: update_status_def Let_def)
  then have "c \<in> subscribers_of (connection_manager t) d \<inter> dom (active_connections (connection_manager t))"
    by (simp only: broadcast_targets)
  with doc show ?thesis by simp
qed

lemma update_status_subscribers:
  "subscribers_of (connection_manager (fst (update_status t d status progress message metadata now ok))) d'
     \<subseteq> subscribers_of (connection_manager t) d'"
  by (simp add: update_status_def Let_def broadcast_manager_after)

lemma hub_step_subscribers:
  assumes "op \<noteq> Subscribe c d"
    and "c \<notin> subscribers_of (connection_manager t) d"
  shows "c \<notin> subscribers_of (connection_manager (fst (hub_step t op))) d"
proof (cases op)
  case (Connect ws c1)
  with assms(2) show ?thesis by (simp add: subscribers_of_connect)
next
  case (Disconnect c1)
  with assms(2) subscribers_of_disconnect[of "connection_manager t" c1 d] show ?thesis
    by auto
next
  case (Subscribe c1 d1)
  with assms show ?thesis by (auto simp: subscribers_of_subscribe)
next
  case (Unsubscribe c1 d1)
  with assms(2) show ?thesis by (auto simp: subscribers_of_unsubscribe)
next
  case (Publish d1 st pr msg md now ok)
  with assms(2) update_status_subscribers[of t d1 st pr msg md now ok d] show ?thesis
    by auto
qed

lemma hub_step_sends:
  assumes "(c, u) \<in> set (snd (hub_step t op))"
  shows "c \<in> subscribers_of (connection_manager t) (su_documentId u)
         \<and> c \<in> dom (active_connections (connection_manager t))"
proof (cases op)
  case (Publish d1 st pr msg md now ok)
  with assms have "(c, u) \<in> set (snd (update_status t d1 st pr msg md now ok))" by simp
  from update_status_sends[OF this] show ?thesis by auto
qed (use assms in simp_all)

lemma hub_run_keeps_unsubscribed:
  assumes "Subscribe c d \<notin> set ops"
    and "c \<notin> subscribers_of (connection_manager t) d"
    and "(c, u) \<in> set (snd (hub_run t ops))"
  shows "su_documentId u \<noteq> d"
  using assms
proof (induction ops arbitrary: t)
  case Nil
  then show ?case by simp
next
  case (Cons op ops)
  let ?t1 = "fst (hub_step t op)"
  from Cons.prems(1) have ne: "op \<noteq> Subscribe c d" and rest: "Subscribe c d \<notin> set ops" by auto
  from Cons.prems(3) have "(c, u) \<in> set (snd (hub_step t op)) \<or> (c, u) \<in> set (snd (hub_run ?t1 ops))"
    by (simp add: split_beta)
  then show ?case
  proof
    assume "(c, u) \<in> set (snd (hub_step t op))"
    from hub_step_sends[OF this] Cons.prems(2) show ?thesis by auto
  next
    assume in_rest: "(c, u) \<in> set (snd (hub_run ?t1 ops))"
    from hub_step_subscribers[OF ne Cons.prems(2)]
    have "c \<notin> subscribers_of (connection_manager ?t1) d" .
    from Cons.IH[OF rest this in_rest] show ?thesis .
  qed
qed


text \<open>
  Claim C10. Membership in a document's subscriber set is a set membership, not a
  count: subscribing a client twice gives the same hub state as subscribing it once; one
  \<open>unsubscribe_from_document\<close> then leaves the client out of the document's
  subscribers (as it does from any state); and the document's entry is deleted from
  \<open>document_subscribers\<close> exactly when no subscriber other than that client was
  left, in particular when the last subscriber is removed.
\<close>

theorem subscription_is_a_set:
  "subscribe_to_document (subscribe_to_document m c d) c d = subscribe_to_document m c d
   \<and> c \<notin> subscribers_of (unsubscribe_from_document (subscribe_to_document (subscribe_to_document m c d) c d) c d) d
   \<and> c \<notin> subscribers_of (unsubscribe_from_document m c d) d
   \<and> (document_subscribers (unsubscribe_from_document m c d) d = None
        \<longleftrightarrow> subscribers_of m d \<subseteq> {c})"
proof (intro conjI)
  show "subscribe_to_document (subscribe_to_document m c d) c d = subscribe_to_document m c d"
    by (simp add: subscribe_to_document_def Let_def set_add_idem)
  show "c \<notin> subscribers_of (unsubscribe_from_document (subscribe_to_document (subscribe_to_document m c d) c d) c d) d"
    by (simp add: subscribers_of_unsubscribe)
  show "c \<notin> subscribers_of (unsubscribe_from_document m c d) d"
    by (simp add: subscribers_of_unsubscribe)
  show "document_subscribers (unsubscribe_from_document m c d) d = None
        \<longleftrightarrow> subscribers_of m d \<subseteq> {c}"
    by (cases "document_subscribers m d")
      (simp_all add: unsubscribe_from_document_def subscribers_of_def Let_def set_discard_Nil)
qed

theorem subscription_is_a_set_witness:
  "subscribe_to_document (subscribe_to_document hub_example ''a'' ''doc1'') ''a'' ''doc1''
     = subscribe_to_document hub_example ''a'' ''doc1''
   \<and> subscribers_of (unsubscribe_from_document hub_example ''a'' ''doc1'') ''doc1'' = {''b''}
   \<and> document_subscribers
         (unsubscribe_from_document (unsubscribe_from_document hub_example ''a'' ''doc1'') ''b'' ''doc1'')
         ''doc1'' = None"
proof -
  let ?m1 = "unsubscribe_from_document hub_example ''a'' ''doc1''"
  have s1: "subscribers_of ?m1 ''doc1'' = {''b''}"
    by (simp add: hub_example_def subscribers_of_unsubscribe subscribers_of_subscribe
        subscribers_of_connect new_manager_def)
       (auto simp: subscribers_of_def)
  then have "subscribers_of ?m1 ''doc1'' \<subseteq> {''b''}" by simp
  with subscription_is_a_set[of ?m1 "''b''" "''doc1''"] subscription_is_a_set[of hub_example "''a''" "''doc1''"] s1
  show ?thesis by simp
qed

text \<open>
  Claim C3. A broadcast for document \<open>d\<close> calls \<open>send_text\<close> exactly for the
  clients that are in \<open>d\<close>'s subscriber set and in the connection table when the
  broadcast runs; every status update published by \<open>update_status\<close> goes only to
  such clients and carries \<open>d\<close> as its document id; and after
  \<open>unsubscribe_from_document m c d\<close>, whatever operations follow (other clients
  subscribing, publishing, connecting), as long as \<open>c\<close> is not subscribed to \<open>d\<close>
  again, no update for \<open>d\<close> is sent to \<open>c\<close>.
\<close>

theorem events_only_to_current_subscribers:
  "set (delivered (broadcast_to_document_subscribers m d ok)) \<union>
   set (disconnected_clients (broadcast_to_document_subscribers m d ok))
     = subscribers_of m d \<inter> dom (active_connections m)
   \<and> (\<forall>(c', u) \<in> set (snd (update_status t d status progress message metadata now ok)).
         c' \<in> subscribers_of (connection_manager t) d
         \<and> c' \<in> dom (active_connections (connection_manager t))
         \<and> su_documentId u = d)
   \<and> (Subscribe c d \<notin> set ops \<longrightarrow>
        (\<forall>(c', u) \<in> set (snd (hub_run
              (t\<lparr>connection_manager := unsubscribe_from_document (connection_manager t) c d\<rparr>) ops)).
           \<not> (c' = c \<and> su_documentId u = d)))"
proof (intro conjI impI)
  show "set (delivered (broadcast_to_document_subscribers m d ok)) \<union>
        set (disconnected_clients (broadcast_to_document_subscribers m d ok))
          = subscribers_of m d \<inter> dom (active_connections m)"
    by (rule broadcast_targets)
  show "\<forall>(c', u) \<in> set (snd (update_status t d status progress message metadata now ok)).
         c' \<in> subscribers_of (connection_manager t) d
         \<and> c' \<in> dom (active_connections (connection_manager t))
         \<and> su_documentId u = d"
    using update_status_sends[of _ _ t d status progress message metadata now ok] by auto
next
  assume no_sub: "Subscribe c d \<notin> set ops"
  let ?t1 = "t\<lparr>connection_manager := unsubscribe_from_document (connection_manager t) c d\<rparr>"
  have out: "c \<notin> subscribers_of (connection_manager ?t1) d"
    by (simp add: subscribers_of_unsubscribe)
  show "\<forall>(c', u) \<in> set (snd (hub_run ?t1 ops)). \<not> (c' = c \<and> su_documentId u = d)"
    using hub_run_keeps_unsubscribed[OF no_sub out] by auto
qed

lemma hub_example_connections:
  "active_connections hub_example = [''a'' \<mapsto> (), ''b'' \<mapsto> ()]"
  "document_subscribers hub_example = [''doc1'' \<mapsto> [''a'', ''b'']]"
  by (simp_all add: hub_example_def subscribe_to_document_def connect_def new_manager_def
      set_add_def Let_def)

lemma ops_example_sends:
  "map fst (snd (hub_run
      (tracker_example\<lparr>connection_manager :=
          unsubscribe_from_document (connection_manager tracker_example) ''a'' ''doc1''\<rparr>)
      ops_example)) = [''b'', ''b'']"
  by (simp add: ops_example_def tracker_example_def update_status_def Let_def
      broadcast_to_document_subscribers_def unsubscribe_from_document_def set_discard_def
      hub_example_connections)

theorem events_only_to_current_subscribers_witness:
  "Subscribe ''a'' ''doc1'' \<notin> set ops_example
   \<and> map fst (snd (hub_run
        (tracker_example\<lparr>connection_manager :=
            unsubscribe_from_document (connection_manager tracker_example) ''a'' ''doc1''\<rparr>)
        ops_example)) = [''b'', ''b'']
   \<and> \<not> (\<exists>u. (''a'', u) \<in> set (snd (hub_run
        (tracker_example\<lparr>connection_manager :=
            unsubscribe_from_document (connection_manager tracker_example) ''a'' ''doc1''\<rparr>)
        ops_example)) \<and> su_documentId u = ''doc1'')"
proof -
  have no_sub: "Subscribe ''a'' ''doc1'' \<notin> set ops_example"
    by (simp add: ops_example_def)
  from events_only_to_current_subscribers[where t = tracker_example and d = "''doc1''"
      and c = "''a''" and ops = ops_example] no_sub
  have "\<forall>(c', u) \<in> set (snd (hub_run
        (tracker_example\<lparr>connection_manager :=
            unsubscribe_from_document (connection_manager tracker_example) ''a'' ''doc1''\<rparr>)
        ops_example)). \<not> (c' = ''a'' \<and> su_documentId u = ''doc1'')"
    by blast
  then have "\<not> (\<exists>u. (''a'', u) \<in> set (snd (hub_run
        (tracker_example\<lparr>connection_manager :=
            unsubscribe_from_document (connection_manager tracker_example) ''a'' ''doc1''\<rparr>)
        ops_example)) \<and> su_documentId u = ''doc1'')"
    by blast
  with no_sub ops_example_sends show ?thesis by blast
qed

section \<open>Strings and regular expressions\<close>

text \<open>
  A Python \<open>str\<close> is a list of characters, and a character stands for the code point
  with its number: the model covers the strings whose code points are below 256. The
  character classes are Python's on that range: \<open>\s\<close>, \<open>str.isspace\<close>,
  \<open>str.lstrip\<close> and \<open>str.split()\<close> share one notion of whitespace.
\<close>

definition is_space :: "char \<Rightarrow> bool" where
  "is_space c \<longleftrightarrow> c \<in> set [CHR 0x09, CHR 0x0A, CHR 0x0B, CHR 0x0C, CHR 0x0D,
     CHR 0x1C, CHR 0x1D, CHR 0x1E, CHR 0x1F, CHR 0x20, CHR 0x85, CHR 0xA0]"

definition is_digit :: "char \<Rightarrow> bool" where
  "is_digit c \<longleftrightarrow> c \<in> set ''0123456789''"

definition is_ascii :: "char \<Rightarrow> bool" where
  "is_ascii c \<longleftrightarrow> (of_char c :: nat) < 128"

text \<open>\<open>span_len P s\<close>: how many characters a greedy \<open>[P]*\<close> takes at the head of \<open>s\<close>.\<close>

definition span_len :: "(char \<Rightarrow> bool) \<Rightarrow> string \<Rightarrow> nat" where
  "span_len P s = length (takeWhile P s)"

text \<open>\<open>s.split(sep)\<close> and \<open>sep.join(parts)\<close> for a one-character separator.\<close>

fun str_split :: "char \<Rightarrow> string \<Rightarrow> string list" where
  "str_split sep [] = [[]]"
| "str_split sep (c # cs) =
     (if c = sep then [] # str_split sep cs
      else (case str_split sep cs of
              l # ls \<Rightarrow> (c # l) # ls
            | [] \<Rightarrow> [[c]]))"

fun str_join :: "char \<Rightarrow> string list \<Rightarrow> string" where
  "str_join sep [] = []"
| "str_join sep [l] = l"
| "str_join sep (l # ls) = l @ sep # str_join sep ls"

text \<open>\<open>s.split()\<close>: the maximal runs of non-whitespace characters.\<close>

fun split_ws_acc :: "string \<Rightarrow> string \<Rightarrow> string list" where
  "split_ws_acc w [] = (if w = [] then [] else [w])"
| "split_ws_acc w (c # cs) =
     (if is_space c then (if w = [] then [] else [w]) @ split_ws_acc [] cs
      else split_ws_acc (w @ [c]) cs)"

definition str_split_ws :: "string \<Rightarrow> string list" where
  "str_split_ws s = split_ws_acc [] s"

definition str_lstrip :: "string \<Rightarrow> string" where
  "str_lstrip s = dropWhile is_space s"

text \<open>\<open>len(s.encode())\<close>: the length of the UTF-8 encoding.\<close>

definition utf8_len :: "string \<Rightarrow> nat" where
  "utf8_len s = sum_list (map (\<lambda>c. if is_ascii c then 1 else 2) s)"

text \<open>\<open>str(n)\<close> of a natural number, as an f-string renders it.\<close>

fun str_nat :: "nat \<Rightarrow> string" where
  "str_nat n = (if n < 10 then [''0123456789'' ! n]
                else str_nat (n div 10) @ [''0123456789'' ! (n mod 10)])"

declare str_nat.simps [simp del]

text \<open>
  Scanning a string for the matches of a regular expression, as \<open>re.findall\<close>,
  \<open>re.search\<close> and \<open>re.sub\<close> do: leftmost first, each match starting where the last
  one ended. A regular expression is given by its matcher: whether it matches at the
  head of the rest of the string and how many characters the match takes. The flag says
  whether the position is at the beginning of a line (the start of the string, or right
  after a newline), which is what \<open>^\<close> asks under \<open>re.MULTILINE\<close>. None of the
  expressions of this program matches the empty string, so a match takes one character
  at least; \<open>skip\<close> counts the characters of the current match still to pass.
\<close>

type_synonym matcher = "bool \<Rightarrow> string \<Rightarrow> nat option"

fun findall_scan :: "matcher \<Rightarrow> bool \<Rightarrow> nat \<Rightarrow> string \<Rightarrow> nat" where
  "findall_scan m bol skip [] = 0"
| "findall_scan m bol skip (c # cs) =
     (if 0 < skip then findall_scan m (c = CHR ''\<newline>'') (skip - 1) cs
      else (case m bol (c # cs) of
              Some n \<Rightarrow> Suc (findall_scan m (c = CHR ''\<newline>'') (n - 1) cs)
            | None \<Rightarrow> findall_scan m (c = CHR ''\<newline>'') 0 cs))"

definition re_findall_count :: "matcher \<Rightarrow> string \<Rightarrow> nat" where
  "re_findall_count m s = findall_scan m True 0 s"

fun search_scan :: "matcher \<Rightarrow> bool \<Rightarrow> string \<Rightarrow> bool" where
  "search_scan m bol [] = False"
| "search_scan m bol (c # cs) =
     (m bol (c # cs) \<noteq> None \<or> search_scan m (c = CHR ''\<newline>'') cs)"

definition re_search :: "matcher \<Rightarrow> string \<Rightarrow> bool" where
  "re_search m s = search_scan m True s"

fun sub_scan :: "matcher \<Rightarrow> string \<Rightarrow> bool \<Rightarrow> nat \<Rightarrow> string \<Rightarrow> string" where
  "sub_scan m repl bol skip [] = []"
| "sub_scan m repl bol skip (c # cs) =
     (if 0 < skip then sub_scan m repl (c = CHR ''\<newline>'') (skip - 1) cs
      else (case m bol (c # cs) of
              Some n \<Rightarrow> repl @ sub_scan m repl (c = CHR ''\<newline>'') (n - 1) cs
            | None \<Rightarrow> c # sub_scan m repl (c = CHR ''\<newline>'') 0 cs))"

definition re_sub :: "matcher \<Rightarrow> string \<Rightarrow> string \<Rightarrow> string" where
  "re_sub m repl s = sub_scan m repl True 0 s"

text \<open>A run \<open>[P]{k,}\<close>: at least \<open>k\<close> characters of the class, as many as there are.\<close>

definition re_run :: "(char \<Rightarrow> bool) \<Rightarrow> nat \<Rightarrow> matcher" where
  "re_run P k bol s = (let n = span_len P s in if k \<le> n then Some n else None)"

section \<open>QualityScorer (utils/quality\_checker.py)\<close>

text \<open>
  The regular expressions of the quality checker. Each matcher says in its comment
  which expression it is; where the expression could backtrack, the comment says why
  the greedy choice decides the match.
\<close>

text \<open>
  \<open>^#{1,6}\s+\<close> (MULTILINE): one to six \<open>#\<close> at the beginning of a line, then
  whitespace. With more than six \<open>#\<close>, or no whitespace after them, no shorter
  choice of \<open>#{1,6}\<close> helps: the next character would be a \<open>#\<close>.
\<close>

definition re_heading_prefix :: matcher where
  "re_heading_prefix bol s =
     (let h = span_len (\<lambda>c. c = CHR ''#'') s;
          w = span_len is_space (drop h s)
      in if bol \<and> 1 \<le> h \<and> h \<le> 6 \<and> 1 \<le> w then Some (h + w) else None)"

text \<open>
  \<open>\|.*\|.*\n\|[-:\s|]+\|\<close>: a \<open>|\<close>, a second \<open>|\<close> later on the same line, the
  end of the line, a \<open>|\<close> at the start of the next line, then characters of the class
  \<open>[-:\s|]\<close> and a closing \<open>|\<close>. The class holds \<open>|\<close> itself, so the greedy run
  is given back down to its last \<open>|\<close> that leaves at least one character before it.
\<close>

definition is_rule_char :: "char \<Rightarrow> bool" where
  "is_rule_char c \<longleftrightarrow> c = CHR ''-'' \<or> c = CHR '':'' \<or> is_space c \<or> c = CHR ''|''"

definition re_table :: matcher where
  "re_table bol s =
     (case s of
        [] \<Rightarrow> None
      | c # rest \<Rightarrow>
          (let line = takeWhile (\<lambda>x. x \<noteq> CHR ''\<newline>'') rest;
               after = drop (length line) rest
           in if c \<noteq> CHR ''|'' \<or> CHR ''|'' \<notin> set line then None
              else (case after of
                      n1 # p # tail \<Rightarrow>
                        (let run = takeWhile is_rule_char tail;
                             ks = filter (\<lambda>k. run ! k = CHR ''|'') [1..<length run]
                         in if p \<noteq> CHR ''|'' \<or> ks = [] then None
                            else Some (1 + length line + 2 + last ks + 1))
                    | _ \<Rightarrow> None)))"

text \<open>
  \<open>^[\s]*[-*+]\s+\<close> and \<open>^[\s]*\d+\.\s+\<close> (MULTILINE): from the beginning of a
  line, whitespace (newlines too), a bullet or a number with a dot, whitespace.
\<close>

definition re_bullet_item :: matcher where
  "re_bullet_item bol s =
     (let w0 = span_len is_space s;
          w1 = span_len is_space (drop (Suc w0) s)
      in if bol \<and> w0 < length s \<and> s ! w0 \<in> set ''-*+'' \<and> 1 \<le> w1
         then Some (w0 + 1 + w1) else None)"

definition re_numbered_item :: matcher where
  "re_numbered_item bol s =
     (let w0 = span_len is_space s;
          d = span_len is_digit (drop w0 s);
          w1 = span_len is_space (drop (w0 + d + 1) s)
      in if bol \<and> 1 \<le> d \<and> w0 + d < length s \<and> s ! (w0 + d) = CHR ''.'' \<and> 1 \<le> w1
         then Some (w0 + d + 1 + w1) else None)"

text \<open>
  \<open>[^\x00-\x7F]+\<close>, the mojibake class \<open>[\<dots>]+\<close> of the three code points 0xEF,
  0xBF and 0xBD, \<open>\.{10,}\<close> and \<open>_{10,}\<close> are runs of one class.
\<close>

definition is_garbled :: "char \<Rightarrow> bool" where
  "is_garbled c \<longleftrightarrow> c = CHR 0xEF \<or> c = CHR 0xBF \<or> c = CHR 0xBD"

text \<open>
  \<open>\|(?:[^|\n]*\|){1}[^|\n]*\n(?!\|)\<close>: a \<open>|\<close>, the next \<open>|\<close> on the line, the
  rest of the line with no further \<open>|\<close>, the newline, and no \<open>|\<close> right after it.
\<close>

definition is_cell_char :: "char \<Rightarrow> bool" where
  "is_cell_char c \<longleftrightarrow> c \<noteq> CHR ''|'' \<and> c \<noteq> CHR ''\<newline>''"

definition re_broken_table :: matcher where
  "re_broken_table bol s =
     (case s of
        [] \<Rightarrow> None
      | c # rest \<Rightarrow>
          (let a = span_len is_cell_char rest;
               rest1 = drop a rest;
               b = span_len is_cell_char (drop 1 rest1);
               rest2 = drop (1 + b) rest1
           in if c = CHR ''|'' \<and> take 1 rest1 = ''|'' \<and> take 1 rest2 = ''\<newline>''
                 \<and> take 1 (drop 1 rest2) \<noteq> ''|''
              then Some (1 + a + 1 + b + 1) else None))"

text \<open>\<open>markdown.count('\n\n\n')\<close>: occurrences that do not overlap.\<close>

definition re_literal :: "string \<Rightarrow> matcher" where
  "re_literal lit bol s = (if lit \<noteq> [] \<and> take (length lit) s = lit then Some (length lit) else None)"

definition str_count :: "string \<Rightarrow> string \<Rightarrow> nat" where
  "str_count s lit = re_findall_count (re_literal lit) s"

definition word_count :: "string \<Rightarrow> nat" where
  "word_count markdown = length (str_split_ws markdown)"

text \<open>
  \<open>calculate_accuracy_score\<close>. \<open>expected_elements\<close> is a dictionary from names to
  integers. Python computes the scores in floating point; here they are real numbers.
\<close>

definition element_score :: "nat \<Rightarrow> int \<Rightarrow> real" where
  "element_score observed expected = min 100 ((real observed / real_of_int expected) * 100)"

definition element_scores :: "(string \<rightharpoonup> int) \<Rightarrow> string \<Rightarrow> nat \<Rightarrow> real list" where
  "element_scores expected_elements key observed =
     (case expected_elements key of
        None \<Rightarrow> []
      | Some expected \<Rightarrow> if 0 < expected then [element_score observed expected] else [])"

definition calculate_accuracy_score :: "string \<Rightarrow> (string \<rightharpoonup> int) \<Rightarrow> real" where
  "calculate_accuracy_score markdown expected_elements =
     (if markdown = [] then 0
      else
        (let scores =
               element_scores expected_elements ''headings''
                 (re_findall_count re_heading_prefix markdown)
             @ element_scores expected_elements ''tables''
                 (re_findall_count re_table markdown)
             @ element_scores expected_elements ''lists''
                 (re_findall_count re_bullet_item markdown
                  + re_findall_count re_numbered_item markdown)
             @ element_scores expected_elements ''min_words'' (word_count markdown)
         in if scores = []
            then (if word_count markdown < 10 then 0
                  else if word_count markdown < 100 then 50
                  else 75)
            else sum_list scores / real (length scores)))"

definition detect_conversion_issues :: "string \<Rightarrow> string list" where
  "detect_conversion_issues markdown =
     (let garbled_count = re_findall_count (re_run is_garbled 1) markdown;
          broken_tables = re_findall_count re_broken_table markdown;
          long_lines = filter (\<lambda>line. 500 < length line) (str_split CHR ''\<newline>'' markdown)
      in (if re_search (re_run (\<lambda>c. \<not> is_ascii c) 1) markdown \<and> 10 < garbled_count
          then [''Encoding issues detected ('' @ str_nat garbled_count @ '' garbled characters)'']
          else [])
       @ (if re_search (re_run (\<lambda>c. c = CHR ''.'') 10) markdown
             \<or> re_search (re_run (\<lambda>c. c = CHR ''_'') 10) markdown
          then [''Excessive repeated characters (possible OCR error)'']
          else [])
       @ (if 0 < broken_tables
          then [''Potentially broken tables detected ('' @ str_nat broken_tables @ '')'']
          else [])
       @ (if word_count markdown < 10
          then [''Very low word count - possible extraction failure'']
          else [])
       @ (if 5 < length long_lines
          then [''Many excessively long lines - possible formatting issues'']
          else [])
       @ (if 10 < str_count markdown ''\<newline>\<newline>\<newline>''
          then [''Excessive blank lines'']
          else []))"

text \<open>
  \<open>calculate_completeness_score\<close>: the ratio of the size of the markdown (its UTF-8
  length) to the size of the source, in bands.
\<close>

definition calculate_completeness_score :: "string \<Rightarrow> int \<Rightarrow> real \<times> string" where
  "calculate_completeness_score markdown source_size =
     (if source_size = 0 then (0, ''Source file is empty'')
      else
        (let ratio = real (utf8_len markdown) / real_of_int source_size
         in if ratio < 0.01 then (10, ''Very poor extraction'')
            else if ratio < 0.05 then (30, ''Poor extraction'')
            else if ratio < 0.1 then (50, ''Partial extraction'')
            else if ratio < 0.3 then (70, ''Good extraction'')
            else if ratio < 1.0 then (85, ''Very good extraction'')
            else (95, ''Excellent extraction'')))"

text \<open>
  \<open>generate_quality_report\<close>. The report's \<open>structure_preservation\<close> entry (the
  result of \<open>check_structure_preservation\<close>) takes no part in the scores and is left
  out of the record.
\<close>

record quality_report =
  overall_score :: real
  completeness_score :: real
  completeness_assessment :: string
  accuracy_score :: real
  detected_issues :: "string list"
  processing_time :: real
  report_word_count :: nat
  character_count :: nat
  line_count :: nat

definition generate_quality_report :: "string \<Rightarrow> int \<Rightarrow> real \<Rightarrow> quality_report" where
  "generate_quality_report markdown source_size time =
     (let issues = detect_conversion_issues markdown;
          (c_score, c_assessment) = calculate_completeness_score markdown source_size;
          a_score = calculate_accuracy_score markdown [''min_words'' \<mapsto> 100]
      in \<lparr>overall_score = (c_score + a_score) / 2,
          completeness_score = c_score,
          completeness_assessment = c_assessment,
          accuracy_score = a_score,
          detected_issues = issues,
          processing_time = time,
          report_word_count = word_count markdown,
          character_count = length markdown,
          line_count = length (str_split CHR ''\<newline>'' markdown)\<rparr>)"

section \<open>MarkdownNormalizer (utils/markdown\_formatter.py)\<close>

definition starts_with_hash :: "string \<Rightarrow> bool" where
  "starts_with_hash line \<longleftrightarrow> take 1 line = ''#''"

definition is_blank :: "char \<Rightarrow> bool" where
  "is_blank c \<longleftrightarrow> c = CHR '' '' \<or> c = CHR 0x09"

text \<open>
  The four substitutions of \<open>clean_markdown\<close>: \<open>\n{3,}\<close> and \<open> {2,}\<close> are runs;
  \<open>^[ \t]+\<close> (MULTILINE) is a run of blanks at the beginning of a line;
  \<open>[ \t]+$\<close> (MULTILINE) is a run of blanks that ends at a newline or at the end of
  the string (a shorter choice of the run would be followed by a blank, not by the end
  of a line).
\<close>

definition re_leading_blanks :: matcher where
  "re_leading_blanks bol s =
     (let n = span_len is_blank s in if bol \<and> 1 \<le> n then Some n else None)"

definition re_trailing_blanks :: matcher where
  "re_trailing_blanks bol s =
     (let n = span_len is_blank s
      in if 1 \<le> n \<and> (drop n s = [] \<or> take 1 (drop n s) = ''\<newline>'') then Some n else None)"

text \<open>The loop of \<open>clean_markdown\<close>: a blank line between two adjacent heading lines.\<close>

fun clean_loop :: "bool \<Rightarrow> string list \<Rightarrow> string list" where
  "clean_loop prev_was_heading [] = []"
| "clean_loop prev_was_heading (line # lines) =
     (let is_heading = starts_with_hash line
      in (if is_heading \<and> prev_was_heading then [[]] else [])
         @ line # clean_loop is_heading lines)"

definition clean_markdown :: "string \<Rightarrow> string" where
  "clean_markdown content =
     (let c1 = re_sub (re_run (\<lambda>c. c = CHR ''\<newline>'') 3) ''\<newline>\<newline>'' content;
          c2 = re_sub (re_run (\<lambda>c. c = CHR '' '') 2) '' '' c1;
          c3 = re_sub re_leading_blanks [] c2;
          c4 = re_sub re_trailing_blanks [] c3
      in str_join CHR ''\<newline>'' (clean_loop False (str_split CHR ''\<newline>'' c4)))"

text \<open>
  The tail \<open>\s+(.+)$\<close> of the two line expressions, on the rest of a line (a string
  without newline): the group. \<open>\s+\<close> takes all the whitespace; when nothing is
  left for \<open>.+\<close>, \<open>\s+\<close> gives back its last character, which becomes the
  group.
\<close>

definition match_space_rest :: "string \<Rightarrow> string option" where
  "match_space_rest rest =
     (let w = span_len is_space rest;
          text = drop w rest
      in if w = 0 then None
         else if text \<noteq> [] then Some text
         else if 2 \<le> w then Some [last rest]
         else None)"

text \<open>
  \<open>re.match(r'^(#+)\s+(.+)$', line)\<close> on a line: the groups \<open>(hashes, title)\<close>.
  \<open>#+\<close> takes all the leading \<open>#\<close> (with fewer, the next character would be
  a \<open>#\<close>, not whitespace).
\<close>

definition match_heading :: "string \<Rightarrow> (string \<times> string) option" where
  "match_heading line =
     (let h = span_len (\<lambda>c. c = CHR ''#'') line
      in if h = 0 then None
         else map_option (\<lambda>title. (take h line, title)) (match_space_rest (drop h line)))"

text \<open>
  The loop of \<open>fix_heading_hierarchy\<close>. The stack of open heading levels is a list
  with its top (\<open>heading_stack[-1]\<close>) at the head.
\<close>

fun fix_loop :: "nat list \<Rightarrow> string list \<Rightarrow> string list" where
  "fix_loop heading_stack [] = []"
| "fix_loop heading_stack (line # lines) =
     (if starts_with_hash line
      then (case match_heading line of
              None \<Rightarrow> line # fix_loop heading_stack lines
            | Some (hashes, title) \<Rightarrow>
                (let level = length hashes;
                     clamp = (heading_stack \<noteq> [] \<and> hd heading_stack + 1 < level);
                     level' = (if clamp then hd heading_stack + 1 else level);
                     line' = (if clamp then replicate level' CHR ''#'' @ '' '' @ title else line);
                     popped = dropWhile (\<lambda>l. level' \<le> l) heading_stack
                 in line' # fix_loop (level' # popped) lines))
      else line # fix_loop heading_stack lines)"

definition fix_heading_hierarchy :: "string \<Rightarrow> string" where
  "fix_heading_hierarchy content =
     str_join CHR ''\<newline>'' (fix_loop [] (str_split CHR ''\<newline>'' content))"

text \<open>
  \<open>add_table_of_contents\<close>. \<open>title.lower()\<close> and the class \<open>\w\<close> on the code
  points below 256; the anchor drops what is not a word character, whitespace or a
  hyphen, then turns each run of hyphens and whitespace into one hyphen.
\<close>

definition upper_chars :: string where
  "upper_chars = ''ABCDEFGHIJKLMNOPQRSTUVWXYZ'' @
     [CHR 0xC0, CHR 0xC1, CHR 0xC2, CHR 0xC3, CHR 0xC4, CHR 0xC5, CHR 0xC6, CHR 0xC7,
      CHR 0xC8, CHR 0xC9, CHR 0xCA, CHR 0xCB, CHR 0xCC, CHR 0xCD, CHR 0xCE, CHR 0xCF,
      CHR 0xD0, CHR 0xD1, CHR 0xD2, CHR 0xD3, CHR 0xD4, CHR 0xD5, CHR 0xD6,
      CHR 0xD8, CHR 0xD9, CHR 0xDA, CHR 0xDB, CHR 0xDC, CHR 0xDD, CHR 0xDE]"

definition lower_chars :: string where
  "lower_chars = ''abcdefghijklmnopqrstuvwxyz'' @
     [CHR 0xE0, CHR 0xE1, CHR 0xE2, CHR 0xE3, CHR 0xE4, CHR 0xE5, CHR 0xE6, CHR 0xE7,
      CHR 0xE8, CHR 0xE9, CHR 0xEA, CHR 0xEB, CHR 0xEC, CHR 0xED, CHR 0xEE, CHR 0xEF,
      CHR 0xF0, CHR 0xF1, CHR 0xF2, CHR 0xF3, CHR 0xF4, CHR 0xF5, CHR 0xF6,
      CHR 0xF8, CHR 0xF9, CHR 0xFA, CHR 0xFB, CHR 0xFC, CHR 0xFD, CHR 0xFE]"

definition lower_char :: "char \<Rightarrow> char" where
  "lower_char c = (case map_of (zip upper_chars lower_chars) c of Some l \<Rightarrow> l | None \<Rightarrow> c)"

definition str_lower :: "string \<Rightarrow> string" where
  "str_lower s = map lower_char s"

definition is_word_char :: "char \<Rightarrow> bool" where
  "is_word_char c \<longleftrightarrow>
     c \<in> set upper_chars \<or> c \<in> set lower_chars \<or> is_digit c \<or> c = CHR ''_''
     \<or> c \<in> set [CHR 0xAA, CHR 0xB2, CHR 0xB3, CHR 0xB5, CHR 0xB9, CHR 0xBA, CHR 0xBC,
                 CHR 0xBD, CHR 0xBE, CHR 0xDF, CHR 0xFF]"

definition heading_anchor :: "string \<Rightarrow> string" where
  "heading_anchor title =
     re_sub (re_run (\<lambda>c. c = CHR ''-'' \<or> is_space c) 1) ''-''
       (filter (\<lambda>c. is_word_char c \<or> is_space c \<or> c = CHR ''-'') (str_lower title))"

fun toc_loop :: "string list \<Rightarrow> string list \<times> (nat \<times> string) list" where
  "toc_loop [] = ([], [])"
| "toc_loop (line # lines) =
     (let (toc_lines, headings) = toc_loop lines
      in if starts_with_hash line
         then (case match_heading line of
                 None \<Rightarrow> (toc_lines, headings)
               | Some (hashes, title) \<Rightarrow>
                   (let level = length hashes
                    in if level \<le> 3
                       then ((replicate (2 * (level - 1)) CHR '' '' @ ''- ['' @ title @ ''](#''
                                @ heading_anchor title @ '')'') # toc_lines,
                             (level, title) # headings)
                       else (toc_lines, headings)))
         else (toc_lines, headings))"

definition add_table_of_contents :: "string \<Rightarrow> string" where
  "add_table_of_contents content =
     (let (entries, headings) = toc_loop (str_split CHR ''\<newline>'' content);
          toc_lines = ''## Table of Contents\<newline>'' # entries
      in if 2 < length headings
         then str_join CHR ''\<newline>'' toc_lines @ ''\<newline>\<newline>'' @ content
         else content)"

text \<open>
  \<open>format_lists\<close>. On the line without its leading whitespace: \<open>^[-*+]\s+\<close> is a
  bullet and a whitespace character; \<open>^\d+\.\s+\<close> is digits, a dot and a whitespace
  character; \<open>^(\d+)\.\s+(.+)$\<close> gives the groups \<open>(num, text)\<close>.
\<close>

definition match_bullet :: "string \<Rightarrow> bool" where
  "match_bullet stripped \<longleftrightarrow>
     (case stripped of m # w # _ \<Rightarrow> m \<in> set ''-*+'' \<and> is_space w | _ \<Rightarrow> False)"

definition match_numbered_prefix :: "string \<Rightarrow> bool" where
  "match_numbered_prefix stripped \<longleftrightarrow>
     (let d = span_len is_digit stripped
      in 1 \<le> d \<and> (case drop d stripped of p # w # _ \<Rightarrow> p = CHR ''.'' \<and> is_space w | _ \<Rightarrow> False))"

definition match_numbered :: "string \<Rightarrow> (string \<times> string) option" where
  "match_numbered stripped =
     (let d = span_len is_digit stripped
      in if d = 0 \<or> take 1 (drop d stripped) \<noteq> ''.'' then None
         else map_option (\<lambda>text. (take d stripped, text))
                (match_space_rest (drop (Suc d) stripped)))"

definition format_list_line :: "string \<Rightarrow> string" where
  "format_list_line line =
     (let stripped = str_lstrip line;
          indent_level = length line - length stripped
      in if match_bullet stripped
         then replicate ((indent_level div 2) * 2) CHR '' '' @ ''- '' @ drop 2 stripped
         else if match_numbered_prefix stripped
         then (case match_numbered stripped of
                 Some (num, text) \<Rightarrow>
                   replicate ((indent_level div 2) * 2) CHR '' '' @ num @ ''. '' @ text
               | None \<Rightarrow> line)
         else line)"

definition format_lists :: "string \<Rightarrow> string" where
  "format_lists content =
     str_join CHR ''\<newline>'' (map format_list_line (str_split CHR ''\<newline>'' content))"

text \<open>
  What the normalizer takes for a heading: a line that starts with \<open>#\<close> and matches
  \<open>^(#+)\s+(.+)$\<close>; its level is the number of its \<open>#\<close>. These are the lines
  \<open>fix_heading_hierarchy\<close> and \<open>add_table_of_contents\<close> act on.
\<close>

definition heading_level :: "string \<Rightarrow> nat option" where
  "heading_level line =
     (if starts_with_hash line
      then map_option (\<lambda>(hashes, title). length hashes) (match_heading line)
      else None)"

definition heading_levels :: "string \<Rightarrow> nat list" where
  "heading_levels content = List.map_filter heading_level (str_split CHR ''\<newline>'' content)"

text \<open>
  Level and title of a heading line, and the headings of a content in order.
\<close>

definition heading_parts :: "string \<Rightarrow> (nat \<times> string) option" where
  "heading_parts line =
     (if starts_with_hash line
      then map_option (\<lambda>(hashes, title). (length hashes, title)) (match_heading line)
      else None)"

definition headings :: "string \<Rightarrow> (nat \<times> string) list" where
  "headings content = List.map_filter heading_parts (str_split CHR ''\<newline>'' content)"

section \<open>Properties of the quality scorer\<close>

lemma element_scores_range:
  "x \<in> set (element_scores expected_elements key observed) \<Longrightarrow> 0 \<le> x \<and> x \<le> 100"
  by (auto simp: element_scores_def element_score_def split: option.splits if_splits)

lemma sum_list_bounds:
  fixes xs :: "real list"
  assumes "\<forall>x \<in> set xs. 0 \<le> x \<and> x \<le> 100"
  shows "0 \<le> sum_list xs \<and> sum_list xs \<le> 100 * real (length xs)"
  using assms by (induction xs) (auto simp: algebra_simps)

lemma mean_bounds:
  fixes xs :: "real list"
  assumes "\<forall>x \<in> set xs. 0 \<le> x \<and> x \<le> 100" and "xs \<noteq> []"
  shows "0 \<le> sum_list xs / real (length xs) \<and> sum_list xs / real (length xs) \<le> 100"
proof -
  from assms(2) have pos: "0 < real (length xs)" by simp
  from sum_list_bounds[OF assms(1)]
  have "0 \<le> sum_list xs" and "sum_list xs \<le> 100 * real (length xs)" by simp_all
  with pos show ?thesis by (simp add: field_simps)
qed

lemma calculate_accuracy_score_range:
  "0 \<le> calculate_accuracy_score markdown expected_elements
   \<and> calculate_accuracy_score markdown expected_elements \<le> 100"
proof (cases "markdown = []")
  case True
  then show ?thesis by (simp add: calculate_accuracy_score_def)
next
  case False
  define scores where "scores =
      element_scores expected_elements ''headings'' (re_findall_count re_heading_prefix markdown)
    @ element_scores expected_elements ''tables'' (re_findall_count re_table markdown)
    @ element_scores expected_elements ''lists''
        (re_findall_count re_bullet_item markdown + re_findall_count re_numbered_item markdown)
    @ element_scores expected_elements ''min_words'' (word_count markdown)"
  have range: "\<forall>x \<in> set scores. 0 \<le> x \<and> x \<le> 100"
    unfolding scores_def using element_scores_range by auto
  have eq: "calculate_accuracy_score markdown expected_elements =
      (if scores = []
       then (if word_count markdown < 10 then 0 else if word_count markdown < 100 then 50 else 75)
       else sum_list scores / real (length scores))"
    using False by (simp add: calculate_accuracy_score_def scores_def Let_def)
  show ?thesis
  proof (cases "scores = []")
    case True
    with eq show ?thesis by simp
  next
    case False
    with eq mean_bounds[OF range False] show ?thesis by simp
  qed
qed

lemma if_cases_keep: "P x \<Longrightarrow> P y \<Longrightarrow> P (if c then x else y)"
  by simp

lemma calculate_completeness_score_range:
  "0 \<le> fst (calculate_completeness_score markdown source_size)
   \<and> fst (calculate_completeness_score markdown source_size) \<le> 100"
  unfolding calculate_completeness_score_def Let_def
  by (intro if_cases_keep[where P = "\<lambda>r. 0 \<le> fst r \<and> fst r \<le> 100"]) simp_all

lemma report_scores:
  "completeness_score (generate_quality_report markdown source_size time)
     = fst (calculate_completeness_score markdown source_size)"
  "accuracy_score (generate_quality_report markdown source_size time)
     = calculate_accuracy_score markdown [''min_words'' \<mapsto> 100]"
  "overall_score (generate_quality_report markdown source_size time)
     = (fst (calculate_completeness_score markdown source_size)
        + calculate_accuracy_score markdown [''min_words'' \<mapsto> 100]) / 2"
  by (simp_all add: generate_quality_report_def Let_def split_beta)

text \<open>
  Claim C1, as the code has it. For every markdown string, source size and processing
  time the completeness, accuracy and overall scores of \<open>generate_quality_report\<close>
  lie between 0 and 100, and so does \<open>calculate_accuracy_score\<close> for every
  dictionary of expected counts. For the empty markdown the accuracy score is 0; the
  completeness score is 0 when the source size is 0 and otherwise 10, the score of the
  lowest band (a ratio below one percent is a very poor extraction).
\<close>

theorem scores_in_range:
  "0 \<le> completeness_score (generate_quality_report markdown source_size time)
   \<and> completeness_score (generate_quality_report markdown source_size time) \<le> 100
   \<and> 0 \<le> accuracy_score (generate_quality_report markdown source_size time)
   \<and> accuracy_score (generate_quality_report markdown source_size time) \<le> 100
   \<and> 0 \<le> overall_score (generate_quality_report markdown source_size time)
   \<and> overall_score (generate_quality_report markdown source_size time) \<le> 100
   \<and> 0 \<le> calculate_accuracy_score markdown expected_elements
   \<and> calculate_accuracy_score markdown expected_elements \<le> 100
   \<and> accuracy_score (generate_quality_report [] source_size time) = 0
   \<and> completeness_score (generate_quality_report [] source_size time)
       = (if source_size = 0 then 0 else 10)"
proof -
  have c: "0 \<le> fst (calculate_completeness_score markdown source_size)"
    "fst (calculate_completeness_score markdown source_size) \<le> 100"
    using calculate_completeness_score_range by simp_all
  have a: "0 \<le> calculate_accuracy_score markdown [''min_words'' \<mapsto> 100]"
    "calculate_accuracy_score markdown [''min_words'' \<mapsto> 100] \<le> 100"
    using calculate_accuracy_score_range by simp_all
  have e: "0 \<le> calculate_accuracy_score markdown expected_elements"
    "calculate_accuracy_score markdown expected_elements \<le> 100"
    using calculate_accuracy_score_range by simp_all
  have empty_a: "calculate_accuracy_score [] [''min_words'' \<mapsto> 100] = 0"
    by (simp add: calculate_accuracy_score_def)
  have empty_c: "fst (calculate_completeness_score [] source_size)
       = (if source_size = 0 then 0 else 10)"
    by (simp add: calculate_completeness_score_def utf8_len_def)
  from c a e empty_a empty_c show ?thesis
    by (simp add: report_scores)
qed

theorem scores_in_range_witness:
  "completeness_score (generate_quality_report ''# Test'' 1000 2.5) = 10
   \<and> accuracy_score (generate_quality_report ''# Test'' 1000 2.5) = 2
   \<and> overall_score (generate_quality_report ''# Test'' 1000 2.5) = 6
   \<and> completeness_score (generate_quality_report [] 0 2.5) = 0
   \<and> accuracy_score (generate_quality_report [] 0 2.5) = 0"
proof -
  have "completeness_score (generate_quality_report ''# Test'' 1000 2.5) = 10"
    by (simp add: report_scores calculate_completeness_score_def utf8_len_def is_ascii_def)
  moreover have "accuracy_score (generate_quality_report ''# Test'' 1000 2.5) = 2"
    by (simp add: report_scores calculate_accuracy_score_def element_scores_def
        element_score_def word_count_def str_split_ws_def is_space_def)
  ultimately show ?thesis
    using scores_in_range[where source_size = 0 and time = "2.5"]
    by (simp add: report_scores)
qed

text \<open>
  The completeness score of the empty markdown is not 0 for a source of 1000 bytes.
\<close>

theorem empty_markdown_completeness_counterexample:
  "completeness_score (generate_quality_report [] 1000 2.5) = 10
   \<and> completeness_score (generate_quality_report [] 1000 2.5) \<noteq> 0"
  by (simp add: report_scores calculate_completeness_score_def utf8_len_def)

text \<open>
  Claim C8. On the scenario's markdown (twenty dots, six newlines)
  \<open>detect_conversion_issues\<close> reports the repeated characters and the low word
  count, and no blank-line issue: the six newlines hold two occurrences of three
  newlines, and the issue needs more than ten.
\<close>

theorem detect_conversion_issues_scenario:
  "detect_conversion_issues ''Text....................\<newline>\<newline>\<newline>\<newline>\<newline>\<newline>More''
     = [''Excessive repeated characters (possible OCR error)'',
        ''Very low word count - possible extraction failure'']
   \<and> str_count ''Text....................\<newline>\<newline>\<newline>\<newline>\<newline>\<newline>More'' ''\<newline>\<newline>\<newline>'' = 2"
  by (simp add: detect_conversion_issues_def re_findall_count_def re_search_def re_run_def
      span_len_def is_garbled_def is_ascii_def re_broken_table_def word_count_def
      str_split_ws_def is_space_def str_count_def re_literal_def)

section \<open>Properties of the markdown normalizer\<close>

subsection \<open>Splitting and joining lines\<close>

lemma str_split_not_Nil: "str_split sep s \<noteq> []"
  by (induction s) (auto split: list.splits)

lemma str_join_Cons: "ls \<noteq> [] \<Longrightarrow> str_join sep (l # ls) = l @ sep # str_join sep ls"
  by (cases ls) simp_all

lemma str_join_split: "str_join sep (str_split sep s) = s"
proof (induction s)
  case Nil
  show ?case by simp
next
  case (Cons c cs)
  obtain l ls where sp: "str_split sep cs = l # ls"
    using str_split_not_Nil[of sep cs] by (cases "str_split sep cs") auto
  show ?case
  proof (cases "c = sep")
    case True
    with Cons sp show ?thesis by (simp add: str_join_Cons)
  next
    case False
    with Cons sp show ?thesis by (cases ls) auto
  qed
qed

lemma str_split_no_sep: "l \<in> set (str_split sep s) \<Longrightarrow> sep \<notin> set l"
proof (induction s arbitrary: l)
  case Nil
  then show ?case by simp
next
  case (Cons c cs)
  obtain l0 ls where sp: "str_split sep cs = l0 # ls"
    using str_split_not_Nil[of sep cs] by (cases "str_split sep cs") auto
  from Cons sp show ?case by (auto split: if_splits)
qed

lemma str_split_line: "sep \<notin> set l \<Longrightarrow> str_split sep l = [l]"
  by (induction l) auto

lemma str_split_append: "sep \<notin> set l \<Longrightarrow> str_split sep (l @ sep # rest) = l # str_split sep rest"
  by (induction l) auto

lemma str_split_join:
  "ls \<noteq> [] \<Longrightarrow> \<forall>l \<in> set ls. sep \<notin> set l \<Longrightarrow> str_split sep (str_join sep ls) = ls"
proof (induction ls rule: str_join.induct)
  case (1 sep)
  then show ?case by simp
next
  case (2 sep l)
  then show ?case by (simp add: str_split_line)
next
  case (3 sep l v va)
  then show ?case by (simp add: str_split_append)
qed

subsection \<open>Table of contents\<close>

lemma heading_level_parts: "heading_level line = map_option fst (heading_parts line)"
  by (cases "match_heading line") (auto simp: heading_level_def heading_parts_def)

lemma heading_levels_headings: "map fst (headings content) = heading_levels content"
proof -
  have "map fst (List.map_filter heading_parts lines) = List.map_filter heading_level lines"
    for lines
    by (induction lines) (auto simp: List.map_filter_simps heading_level_parts split: option.splits)
  then show ?thesis by (simp add: headings_def heading_levels_def)
qed

lemma toc_loop_headings:
  "toc_loop lines =
     (map (\<lambda>(level, title). replicate (2 * (level - 1)) CHR '' '' @ ''- ['' @ title @ ''](#''
              @ heading_anchor title @ '')'')
        (filter (\<lambda>(level, title). level \<le> 3) (List.map_filter heading_parts lines)),
      filter (\<lambda>(level, title). level \<le> 3) (List.map_filter heading_parts lines))"
proof (induction lines)
  case Nil
  show ?case by (simp add: List.map_filter_simps)
next
  case (Cons line lines)
  show ?case
  proof (cases "starts_with_hash line")
    case False
    with Cons show ?thesis by (simp add: List.map_filter_simps heading_parts_def)
  next
    case True
    show ?thesis
    proof (cases "match_heading line")
      case None
      with True Cons show ?thesis by (simp add: List.map_filter_simps heading_parts_def)
    next
      case (Some p)
      obtain hashes title where p: "p = (hashes, title)" by (cases p)
      with True Some Cons show ?thesis
        by (simp add: List.map_filter_simps heading_parts_def Let_def)
    qed
  qed
qed

lemma filter_heading_levels:
  "length (filter (\<lambda>level. level \<le> 3) (heading_levels content))
     = length (filter (\<lambda>(level, title). level \<le> 3) (headings content))"
proof -
  have "length (filter (\<lambda>level. level \<le> 3) (map fst hs))
      = length (filter (\<lambda>(level, title). level \<le> 3) hs)" for hs :: "(nat \<times> string) list"
    by (induction hs) auto
  from this[of "headings content"] show ?thesis by (simp only: heading_levels_headings)
qed

text \<open>
  Claim C7. With \<open>n\<close> the number of headings of level at most 3 in the content:
  when \<open>n\<close> is greater than 2, \<open>add_table_of_contents\<close> returns the content with
  a table of contents in front: the line \<open>## Table of Contents\<close>, an empty line, then
  for each heading of level at most 3, in the order of the content, the line
  \<open>{indent}- [{title}](#{anchor})\<close> with two spaces of indent for each level above
  the first and the anchor made of the title, then two newlines; when \<open>n\<close> is at most
  2 it returns the content as it is; so the result differs from the content exactly
  when \<open>n\<close> is greater than 2.
\<close>

theorem toc_gating:
  "(2 < length (filter (\<lambda>level. level \<le> 3) (heading_levels content)) \<longrightarrow>
      add_table_of_contents content =
        str_join CHR ''\<newline>''
          (''## Table of Contents\<newline>''
             # map (\<lambda>(level, title). replicate (2 * (level - 1)) CHR '' '' @ ''- ['' @ title
                       @ ''](#'' @ heading_anchor title @ '')'')
                 (filter (\<lambda>(level, title). level \<le> 3) (headings content)))
          @ ''\<newline>\<newline>'' @ content)
   \<and> (length (filter (\<lambda>level. level \<le> 3) (heading_levels content)) \<le> 2 \<longrightarrow>
        add_table_of_contents content = content)
   \<and> (add_table_of_contents content \<noteq> content
        \<longleftrightarrow> 2 < length (filter (\<lambda>level. level \<le> 3) (heading_levels content)))
   \<and> map fst (headings content) = heading_levels content"
proof -
  let ?n = "length (filter (\<lambda>level. level \<le> 3) (heading_levels content))"
  let ?hs = "filter (\<lambda>(level, title). level \<le> 3) (headings content)"
  let ?entries = "map (\<lambda>(level, title). replicate (2 * (level - 1)) CHR '' '' @ ''- ['' @ title
                       @ ''](#'' @ heading_anchor title @ '')'') ?hs"
  let ?toc = "str_join CHR ''\<newline>'' (''## Table of Contents\<newline>'' # ?entries) @ ''\<newline>\<newline>''"
  have n: "?n = length ?hs" by (rule filter_heading_levels)
  have loop: "toc_loop (str_split CHR ''\<newline>'' content) = (?entries, ?hs)"
    unfolding headings_def by (rule toc_loop_headings)
  have eq: "add_table_of_contents content = (if 2 < ?n then ?toc @ content else content)"
    unfolding add_table_of_contents_def loop n by (simp add: Let_def)
  have "?toc \<noteq> []" by simp
  then have ne: "?toc @ content \<noteq> content" by simp
  show ?thesis
  proof (intro conjI impI)
    assume "2 < ?n"
    with eq show "add_table_of_contents content =
        str_join CHR ''\<newline>'' (''## Table of Contents\<newline>'' # ?entries)
          @ ''\<newline>\<newline>'' @ content" by simp
  next
    assume "?n \<le> 2"
    with eq show "add_table_of_contents content = content" by simp
  next
    from eq ne show "add_table_of_contents content \<noteq> content \<longleftrightarrow> 2 < ?n"
      by (cases "2 < ?n") simp_all
  next
    show "map fst (headings content) = heading_levels content" by (rule heading_levels_headings)
  qed
qed

lemma toc_example_levels:
  "heading_levels ''# Hello, World\<newline>## B-c  d\<newline>text\<newline>### C\<newline>#### D'' = [1, 2, 3, 4]"
  by code_simp

lemma toc_example:
  "add_table_of_contents ''# Hello, World\<newline>## B-c  d\<newline>text\<newline>### C\<newline>#### D''
     = ''## Table of Contents\<newline>\<newline>- [Hello, World](#hello-world)\<newline>  - [B-c  d](#b-c-d)\<newline>    - [C](#c)\<newline>\<newline># Hello, World\<newline>## B-c  d\<newline>text\<newline>### C\<newline>#### D''"
  by code_simp

lemma toc_example_headings:
  "headings ''# Hello, World\<newline>## B-c  d\<newline>text\<newline>### C\<newline>#### D''
     = [(1, ''Hello, World''), (2, ''B-c  d''), (3, ''C''), (4, ''D'')]"
  by code_simp

lemma toc_example_levels2:
  "heading_levels ''# A\<newline>## B\<newline>#### D'' = [1, 2, 4]"
  by code_simp

theorem toc_gating_witness:
  "heading_levels ''# Hello, World\<newline>## B-c  d\<newline>text\<newline>### C\<newline>#### D'' = [1, 2, 3, 4]
   \<and> headings ''# Hello, World\<newline>## B-c  d\<newline>text\<newline>### C\<newline>#### D''
       = [(1, ''Hello, World''), (2, ''B-c  d''), (3, ''C''), (4, ''D'')]
   \<and> add_table_of_contents ''# Hello, World\<newline>## B-c  d\<newline>text\<newline>### C\<newline>#### D''
       = ''## Table of Contents\<newline>\<newline>- [Hello, World](#hello-world)\<newline>  - [B-c  d](#b-c-d)\<newline>    - [C](#c)\<newline>\<newline># Hello, World\<newline>## B-c  d\<newline>text\<newline>### C\<newline>#### D''
   \<and> heading_levels ''# A\<newline>## B\<newline>#### D'' = [1, 2, 4]
   \<and> add_table_of_contents ''# A\<newline>## B\<newline>#### D'' = ''# A\<newline>## B\<newline>#### D''"
  using toc_gating[of "''# Hello, World\<newline>## B-c  d\<newline>text\<newline>### C\<newline>#### D''"]
    toc_gating[of "''# A\<newline>## B\<newline>#### D''"]
  by (simp add: toc_example_levels toc_example_levels2 toc_example toc_example_headings)

subsection \<open>Heading hierarchy\<close>

text \<open>The levels the loop gives to a sequence of heading levels, from a stack.\<close>

fun clamp_levels :: "nat list \<Rightarrow> nat list \<Rightarrow> nat list" where
  "clamp_levels heading_stack [] = []"
| "clamp_levels heading_stack (level # levels) =
     (let level' = (if heading_stack \<noteq> [] \<and> hd heading_stack + 1 < level
                    then hd heading_stack + 1 else level)
      in level' # clamp_levels (level' # dropWhile (\<lambda>l. level' \<le> l) heading_stack) levels)"

lemma span_len_append_stop:
  "\<forall>x \<in> set xs. P x \<Longrightarrow> \<not> P y \<Longrightarrow> span_len P (xs @ y # ys) = length xs"
  by (simp add: span_len_def takeWhile_append2 takeWhile_eq_all_conv[THEN iffD2])

lemma span_len_all: "\<forall>x \<in> set xs. P x \<Longrightarrow> span_len P xs = length xs"
  by (simp add: span_len_def takeWhile_eq_all_conv[THEN iffD2])

lemma span_len_stop: "span_len P s < length s \<Longrightarrow> \<not> P (s ! span_len P s)"
  unfolding span_len_def by (rule nth_length_takeWhile)

lemma span_len_le: "span_len P s \<le> length s"
  by (simp add: span_len_def length_takeWhile_le)

lemma span_len_prefix: "x \<in> set (take (span_len P s) s) \<Longrightarrow> P x"
  unfolding span_len_def by (metis takeWhile_eq_take set_takeWhileD)

lemma take_span_hashes:
  "take (span_len (\<lambda>c. c = CHR ''#'') s) s = replicate (span_len (\<lambda>c. c = CHR ''#'') s) CHR ''#''"
proof -
  have "\<forall>x \<in> set (take (span_len (\<lambda>c. c = CHR ''#'') s) s). x = CHR ''#''"
    using span_len_prefix[of _ "\<lambda>c. c = CHR ''#''" s] by blast
  moreover have "length (take (span_len (\<lambda>c. c = CHR ''#'') s) s) = span_len (\<lambda>c. c = CHR ''#'') s"
    using span_len_le[of "\<lambda>c. c = CHR ''#''" s] by simp
  ultimately show ?thesis
    by (metis replicate_eqI)
qed

lemma span_len_all_D: "span_len P s = length s \<Longrightarrow> x \<in> set s \<Longrightarrow> P x"
  using span_len_prefix[of x P s] by simp

lemma not_space_hash: "\<not> is_space CHR ''#''"
  by (simp add: is_space_def)

lemma space_is_space: "is_space CHR '' ''"
  by (simp add: is_space_def)

text \<open>What a successful match says about its groups.\<close>

definition title_like :: "string \<Rightarrow> bool" where
  "title_like t \<longleftrightarrow> t \<noteq> [] \<and> (\<not> is_space (hd t) \<or> (\<exists>c. t = [c] \<and> is_space c))"

lemma match_space_rest_SomeD:
  assumes "match_space_rest rest = Some t"
  shows "title_like t"
proof (cases "drop (span_len is_space rest) rest = []")
  case False
  with assms have t: "t = drop (span_len is_space rest) rest"
    by (auto simp: match_space_rest_def Let_def split: if_splits)
  from False have lt: "span_len is_space rest < length rest" by simp
  from lt have e: "hd (drop (span_len is_space rest) rest) = rest ! span_len is_space rest"
    by (rule hd_drop_conv_nth)
  from span_len_stop[OF lt] have "\<not> is_space (hd t)" unfolding t e .
  with False t show ?thesis by (simp add: title_like_def)
next
  case True
  with assms have t: "t = [last rest]" and w2: "2 \<le> span_len is_space rest"
    by (auto simp: match_space_rest_def Let_def split: if_splits)
  from True span_len_le[of is_space rest] have weq: "span_len is_space rest = length rest" by simp
  with w2 have "rest \<noteq> []" by auto
  then have "last rest \<in> set rest" by simp
  from span_len_all_D[OF weq this] t show ?thesis by (simp add: title_like_def)
qed

lemma match_space_rest_rewritten:
  assumes "title_like t"
  shows "match_space_rest (CHR '' '' # t) = Some t"
proof -
  from assms have "(t \<noteq> [] \<and> \<not> is_space (hd t)) \<or> (\<exists>c. t = [c] \<and> is_space c)"
    by (auto simp: title_like_def)
  then show ?thesis
  proof
    assume a: "t \<noteq> [] \<and> \<not> is_space (hd t)"
    then obtain c cs where t: "t = c # cs" by (cases t) auto
    with a have "\<not> is_space c" by simp
    then have "span_len is_space (CHR '' '' # t) = 1"
      using t by (simp add: span_len_def space_is_space)
    then show ?thesis using t by (simp add: match_space_rest_def)
  next
    assume "\<exists>c. t = [c] \<and> is_space c"
    then obtain c where t: "t = [c]" and sp: "is_space c" by blast
    then have "span_len is_space (CHR '' '' # t) = 2"
      by (simp add: span_len_def space_is_space)
    then show ?thesis using t by (simp add: match_space_rest_def)
  qed
qed

lemma match_heading_SomeD:
  assumes "match_heading line = Some (hashes, title)"
  shows "hashes = replicate (length hashes) CHR ''#''"
    and "1 \<le> length hashes"
    and "title_like title"
proof -
  let ?h = "span_len (\<lambda>c. c = CHR ''#'') line"
  from assms have h: "?h \<noteq> 0" and hashes: "hashes = take ?h line"
    and t: "match_space_rest (drop ?h line) = Some title"
    by (auto simp: match_heading_def Let_def split: if_splits)
  have len: "length hashes = ?h" using hashes span_len_le[of _ line] by simp
  from hashes take_span_hashes[of line] len show "hashes = replicate (length hashes) CHR ''#''"
    by simp
  from h len show "1 \<le> length hashes" by simp
  from t show "title_like title" by (rule match_space_rest_SomeD)
qed

text \<open>A rewritten heading line is a heading of the level it was given, with the same title.\<close>

lemma match_heading_rewritten:
  assumes "1 \<le> k" and "title_like title"
  shows "match_heading (replicate k CHR ''#'' @ '' '' @ title) = Some (replicate k CHR ''#'', title)"
proof -
  let ?line = "replicate k CHR ''#'' @ '' '' @ title"
  have h: "span_len (\<lambda>c. c = CHR ''#'') ?line = k"
    using span_len_append_stop[of "replicate k CHR ''#''" "\<lambda>c. c = CHR ''#''" "CHR '' ''" title]
    by simp
  have rest: "drop k ?line = CHR '' '' # title" by simp
  have tk: "take k ?line = replicate k CHR ''#''" by simp
  show ?thesis
    unfolding match_heading_def Let_def h rest tk match_space_rest_rewritten[OF assms(2)]
    using assms(1) by simp
qed

lemma starts_with_hash_replicate: "1 \<le> k \<Longrightarrow> starts_with_hash (replicate k CHR ''#'' @ s)"
  by (cases k) (simp_all add: starts_with_hash_def)

lemma heading_level_rewritten:
  assumes "match_heading line = Some (hashes, title)" and "1 \<le> k"
  shows "heading_level (replicate k CHR ''#'' @ '' '' @ title) = Some k"
proof -
  from match_heading_SomeD(3)[OF assms(1)] assms(2)
  have "match_heading (replicate k CHR ''#'' @ '' '' @ title) = Some (replicate k CHR ''#'', title)"
    by (intro match_heading_rewritten)
  with starts_with_hash_replicate[OF assms(2)] show ?thesis
    by (simp add: heading_level_def)
qed

lemma fix_loop_levels:
  "List.map_filter heading_level (fix_loop heading_stack lines)
     = clamp_levels heading_stack (List.map_filter heading_level lines)"
proof (induction lines arbitrary: heading_stack)
  case Nil
  show ?case by simp
next
  case (Cons line lines)
  show ?case
  proof (cases "starts_with_hash line")
    case False
    with Cons show ?thesis by (simp add: heading_level_def)
  next
    case True
    show ?thesis
    proof (cases "match_heading line")
      case None
      with True Cons show ?thesis by (simp add: heading_level_def)
    next
      case (Some p)
      obtain hashes title where p: "p = (hashes, title)" by (cases p)
      define level where "level = length hashes"
      define clamp where "clamp \<longleftrightarrow> heading_stack \<noteq> [] \<and> hd heading_stack + 1 < level"
      define level' where "level' = (if clamp then hd heading_stack + 1 else level)"
      define line' where
        "line' = (if clamp then replicate level' CHR ''#'' @ '' '' @ title else line)"
      define stack' where "stack' = level' # dropWhile (\<lambda>l. level' \<le> l) heading_stack"
      have lvl: "heading_level line = Some level"
        using True Some p by (simp add: heading_level_def level_def)
      have lvl': "heading_level line' = Some level'"
      proof (cases clamp)
        case True
        have "1 \<le> hd heading_stack + 1" by simp
        from heading_level_rewritten[OF Some[unfolded p] this] True show ?thesis
          by (simp add: line'_def level'_def)
      next
        case False
        with lvl show ?thesis by (simp add: line'_def level'_def)
      qed
      have step: "fix_loop heading_stack (line # lines) = line' # fix_loop stack' lines"
        using True Some p
        by (simp add: Let_def line'_def level'_def clamp_def level_def stack'_def)
      have abs: "clamp_levels heading_stack (level # levels)
                   = level' # clamp_levels stack' levels" for levels
        by (simp add: Let_def level'_def clamp_def stack'_def)
      have "List.map_filter heading_level (fix_loop heading_stack (line # lines))
              = level' # List.map_filter heading_level (fix_loop stack' lines)"
        unfolding step using lvl' by simp
      also have "\<dots> = level' # clamp_levels stack' (List.map_filter heading_level lines)"
        by (simp only: Cons.IH)
      also have "\<dots> = clamp_levels heading_stack (level # List.map_filter heading_level lines)"
        by (simp only: abs)
      also have "\<dots> = clamp_levels heading_stack (List.map_filter heading_level (line # lines))"
        using lvl by simp
      finally show ?thesis .
    qed
  qed
qed

lemma clamp_levels_length: "length (clamp_levels heading_stack levels) = length levels"
  by (induction levels arbitrary: heading_stack) (simp_all add: Let_def)

lemma clamp_levels_first:
  "heading_stack \<noteq> [] \<Longrightarrow> levels \<noteq> [] \<Longrightarrow>
     hd (clamp_levels heading_stack levels) \<le> hd heading_stack + 1"
  by (cases levels) (auto simp: Let_def)

lemma clamp_levels_step:
  "Suc i < length (clamp_levels heading_stack levels) \<Longrightarrow>
     clamp_levels heading_stack levels ! Suc i \<le> clamp_levels heading_stack levels ! i + 1"
proof (induction levels arbitrary: heading_stack i)
  case Nil
  then show ?case by simp
next
  case (Cons level levels)
  define level' where
    "level' = (if heading_stack \<noteq> [] \<and> hd heading_stack + 1 < level
               then hd heading_stack + 1 else level)"
  define stack' where "stack' = level' # dropWhile (\<lambda>l. level' \<le> l) heading_stack"
  have eq: "clamp_levels heading_stack (level # levels) = level' # clamp_levels stack' levels"
    by (simp add: Let_def level'_def stack'_def)
  show ?case
  proof (cases i)
    case 0
    from Cons.prems have ne: "levels \<noteq> []"
      unfolding eq by (auto simp: clamp_levels_length)
    have "stack' \<noteq> []" by (simp add: stack'_def)
    from clamp_levels_first[OF this ne] have "hd (clamp_levels stack' levels) \<le> level' + 1"
      by (simp add: stack'_def)
    moreover from ne have "clamp_levels stack' levels \<noteq> []"
      using clamp_levels_length[of stack' levels] by auto
    ultimately show ?thesis unfolding eq 0 by (simp add: hd_conv_nth)
  next
    case (Suc j)
    from Cons.prems have "Suc j < length (clamp_levels stack' levels)"
      unfolding eq Suc by simp
    from Cons.IH[OF this] show ?thesis unfolding eq Suc by simp
  qed
qed

lemma fix_loop_length: "length (fix_loop heading_stack lines) = length lines"
  by (induction lines arbitrary: heading_stack) (auto simp: Let_def split: option.splits)

lemma match_space_rest_subset:
  assumes "match_space_rest rest = Some t"
  shows "set t \<subseteq> set rest"
proof (cases "drop (span_len is_space rest) rest = []")
  case False
  with assms have "t = drop (span_len is_space rest) rest"
    by (auto simp: match_space_rest_def Let_def split: if_splits)
  then show ?thesis by (auto dest: in_set_dropD)
next
  case True
  with assms have t: "t = [last rest]" and w2: "2 \<le> span_len is_space rest"
    by (auto simp: match_space_rest_def Let_def split: if_splits)
  from w2 span_len_le[of is_space rest] have "rest \<noteq> []" by auto
  with t show ?thesis by simp
qed

lemma match_heading_title_subset:
  "match_heading line = Some (hashes, title) \<Longrightarrow> set title \<subseteq> set line"
  by (auto simp: match_heading_def Let_def split: if_splits
      dest!: match_space_rest_subset dest: in_set_dropD)

lemma fix_loop_no_newline:
  "\<forall>l \<in> set lines. CHR ''\<newline>'' \<notin> set l \<Longrightarrow>
     \<forall>l \<in> set (fix_loop heading_stack lines). CHR ''\<newline>'' \<notin> set l"
proof (induction lines arbitrary: heading_stack)
  case Nil
  then show ?case by simp
next
  case (Cons line lines)
  from Cons.prems have line: "CHR ''\<newline>'' \<notin> set line"
    and rest: "\<forall>l \<in> set lines. CHR ''\<newline>'' \<notin> set l" by simp_all
  note IH = Cons.IH[OF rest]
  show ?case
  proof (cases "starts_with_hash line \<and> match_heading line \<noteq> None")
    case False
    with line IH show ?thesis by (auto split: option.splits)
  next
    case True
    then obtain hashes title where m: "match_heading line = Some (hashes, title)" by auto
    from match_heading_title_subset[OF m] line have "CHR ''\<newline>'' \<notin> set title" by auto
    with True m line IH show ?thesis by (auto simp: Let_def)
  qed
qed

lemma heading_levels_fix:
  "heading_levels (fix_heading_hierarchy content) = clamp_levels [] (heading_levels content)"
proof -
  let ?lines = "str_split CHR ''\<newline>'' content"
  have ne: "fix_loop [] ?lines \<noteq> []"
    using fix_loop_length[of "[]" ?lines] str_split_not_Nil[of "CHR ''\<newline>''" content]
    by auto
  have nl: "\<forall>l \<in> set (fix_loop [] ?lines). CHR ''\<newline>'' \<notin> set l"
    by (rule fix_loop_no_newline) (auto dest: str_split_no_sep)
  have "str_split CHR ''\<newline>'' (fix_heading_hierarchy content) = fix_loop [] ?lines"
    unfolding fix_heading_hierarchy_def by (rule str_split_join[OF ne nl])
  then show ?thesis
    by (simp add: heading_levels_def fix_loop_levels)
qed

text \<open>
  Claim C2. In the output of \<open>fix_heading_hierarchy\<close>, for any input string, the
  level of every heading but the first is at most one more than the level of the
  heading before it, which is the level on top of the stack of open headings when the
  heading is read (\<open>clamp_levels\<close> above); no heading is added or lost. A heading is
  a line that the function itself takes for one (\<open>heading_level\<close>).
\<close>

theorem heading_clamp:
  "length (heading_levels (fix_heading_hierarchy content)) = length (heading_levels content)
   \<and> (\<forall>i. Suc i < length (heading_levels (fix_heading_hierarchy content)) \<longrightarrow>
          heading_levels (fix_heading_hierarchy content) ! Suc i
            \<le> heading_levels (fix_heading_hierarchy content) ! i + 1)"
  unfolding heading_levels_fix
  using clamp_levels_step by (simp add: clamp_levels_length)

lemma heading_clamp_example:
  "fix_heading_hierarchy ''# Title\<newline>### Skipped Level\<newline>## Back to Level 2''
     = ''# Title\<newline>## Skipped Level\<newline>## Back to Level 2''"
  by (simp add: fix_heading_hierarchy_def starts_with_hash_def match_heading_def
      match_space_rest_def span_len_def is_space_def Let_def)

theorem heading_clamp_witness:
  "fix_heading_hierarchy ''# Title\<newline>### Skipped Level\<newline>## Back to Level 2''
     = ''# Title\<newline>## Skipped Level\<newline>## Back to Level 2''
   \<and> heading_levels ''# Title\<newline>### Skipped Level\<newline>## Back to Level 2'' = [1, 3, 2]
   \<and> heading_levels (fix_heading_hierarchy ''# Title\<newline>### Skipped Level\<newline>## Back to Level 2'') = [1, 2, 2]
   \<and> heading_levels (fix_heading_hierarchy ''# Title\<newline>### Skipped Level\<newline>## Back to Level 2'') ! 1
       \<le> heading_levels (fix_heading_hierarchy ''# Title\<newline>### Skipped Level\<newline>## Back to Level 2'') ! 0 + 1"
proof -
  have a: "heading_levels ''# Title\<newline>### Skipped Level\<newline>## Back to Level 2'' = [1, 3, 2]"
    by (simp add: heading_levels_def heading_level_def starts_with_hash_def match_heading_def
        match_space_rest_def span_len_def is_space_def)
  have b: "heading_levels ''# Title\<newline>## Skipped Level\<newline>## Back to Level 2'' = [1, 2, 2]"
    by (simp add: heading_levels_def heading_level_def starts_with_hash_def match_heading_def
        match_space_rest_def span_len_def is_space_def)
  from heading_clamp[of "''# Title\<newline>### Skipped Level\<newline>## Back to Level 2''"]
  have "Suc 0 < length (heading_levels (fix_heading_hierarchy ''# Title\<newline>### Skipped Level\<newline>## Back to Level 2'')) \<longrightarrow>
     heading_levels (fix_heading_hierarchy ''# Title\<newline>### Skipped Level\<newline>## Back to Level 2'') ! Suc 0
       \<le> heading_levels (fix_heading_hierarchy ''# Title\<newline>### Skipped Level\<newline>## Back to Level 2'') ! 0 + 1"
    by blast
  with a b show ?thesis by (simp add: heading_clamp_example)
qed

subsection \<open>List formatting\<close>

lemma str_lstrip_indent:
  "\<not> is_space c \<Longrightarrow> str_lstrip (replicate k CHR '' '' @ c # r) = c # r"
  by (simp add: str_lstrip_def dropWhile_append3 space_is_space)

lemma str_lstrip_subset: "set (str_lstrip line) \<subseteq> set line"
  by (auto simp: str_lstrip_def dest: set_dropWhileD)

lemma even_indent: "((n div 2) * 2) div 2 * 2 = (n div 2) * (2::nat)"
  by simp

lemma is_digit_not_space: "is_digit c \<Longrightarrow> \<not> is_space c"
  by (auto simp: is_digit_def is_space_def)

lemma is_digit_not_bullet: "is_digit c \<Longrightarrow> c \<notin> set ''-*+''"
  by (auto simp: is_digit_def)

lemma dot_not_digit: "\<not> is_digit CHR ''.''"
  by (simp add: is_digit_def)

lemma dash_not_space: "\<not> is_space CHR ''-''"
  by (simp add: is_space_def)

text \<open>A bullet line, once formatted, is formatted to itself.\<close>

lemma format_bullet_line:
  assumes "match_bullet (str_lstrip line)"
  shows "\<exists>k r. format_list_line line = replicate (k * 2) CHR '' '' @ ''- '' @ r
               \<and> set r \<subseteq> set line"
proof -
  from assms obtain m w r where st: "str_lstrip line = m # w # r"
    by (auto simp: match_bullet_def split: list.splits)
  let ?k = "(length line - length (str_lstrip line)) div 2"
  have "format_list_line line = replicate (?k * 2) CHR '' '' @ ''- '' @ r"
    using assms st by (simp add: format_list_line_def Let_def)
  moreover have "set r \<subseteq> set line" using str_lstrip_subset[of line] st by auto
  ultimately show ?thesis by blast
qed

lemma format_formatted_bullet:
  "format_list_line (replicate (k * 2) CHR '' '' @ ''- '' @ r)
     = replicate (k * 2) CHR '' '' @ ''- '' @ r"
proof -
  let ?out = "replicate (k * 2) CHR '' '' @ ''- '' @ r"
  have st: "str_lstrip ?out = CHR ''-'' # CHR '' '' # r"
    using str_lstrip_indent[OF dash_not_space, of "k * 2" "CHR '' '' # r"] by simp
  have mb: "match_bullet (CHR ''-'' # CHR '' '' # r)"
    by (simp add: match_bullet_def space_is_space)
  have ind: "length ?out - length (CHR ''-'' # CHR '' '' # r) = k * 2" by simp
  show ?thesis
    unfolding format_list_line_def Let_def st ind using mb by simp
qed

text \<open>A numbered line that matches, once formatted, is formatted to itself.\<close>

lemma take_span_digits: "x \<in> set (take (span_len is_digit s) s) \<Longrightarrow> is_digit x"
  by (rule span_len_prefix)

lemma format_numbered_line:
  assumes "\<not> match_bullet (str_lstrip line)"
    and "match_numbered_prefix (str_lstrip line)"
    and "match_numbered (str_lstrip line) = Some (num, item)"
  shows "\<exists>k. format_list_line line = replicate (k * 2) CHR '' '' @ num @ ''. '' @ item"
    and "num \<noteq> []" and "\<forall>c \<in> set num. is_digit c" and "title_like item"
    and "set num \<subseteq> set line" and "set item \<subseteq> set line"
proof -
  let ?st = "str_lstrip line"
  let ?d = "span_len is_digit ?st"
  let ?k = "(length line - length ?st) div 2"
  from assms(3) have d: "?d \<noteq> 0" and num: "num = take ?d ?st"
    and t: "match_space_rest (drop (Suc ?d) ?st) = Some item"
    by (auto simp: match_numbered_def Let_def split: if_splits)
  show "\<exists>k. format_list_line line = replicate (k * 2) CHR '' '' @ num @ ''. '' @ item"
    using assms by (intro exI[of _ ?k]) (simp add: format_list_line_def Let_def)
  from d num span_len_le[of is_digit ?st] show "num \<noteq> []" by auto
  from num show "\<forall>c \<in> set num. is_digit c" using take_span_digits[of _ ?st] by blast
  from t show "title_like item" by (rule match_space_rest_SomeD)
  from num have "set num \<subseteq> set ?st" by (auto dest: in_set_takeD)
  with str_lstrip_subset[of line] show "set num \<subseteq> set line" by blast
  from match_space_rest_subset[OF t] have "set item \<subseteq> set ?st" by (auto dest: in_set_dropD)
  with str_lstrip_subset[of line] show "set item \<subseteq> set line" by blast
qed

lemma format_formatted_numbered:
  assumes "num \<noteq> []" and "\<forall>c \<in> set num. is_digit c" and "title_like item"
  shows "format_list_line (replicate (k * 2) CHR '' '' @ num @ ''. '' @ item)
     = replicate (k * 2) CHR '' '' @ num @ ''. '' @ item"
proof -
  let ?out = "replicate (k * 2) CHR '' '' @ num @ ''. '' @ item"
  let ?st = "num @ ''. '' @ item"
  from assms(1) obtain n ns where num: "num = n # ns" by (cases num) auto
  with assms(2) have n: "is_digit n" by simp
  have st: "str_lstrip ?out = ?st"
    using str_lstrip_indent[OF is_digit_not_space[OF n], of "k * 2" "ns @ ''. '' @ item"] num
    by simp
  have ind: "length ?out - length ?st = k * 2" by simp
  have nb: "\<not> match_bullet ?st"
    using is_digit_not_bullet[OF n] num by (simp add: match_bullet_def split: list.splits)
  have d: "span_len is_digit ?st = length num"
    using span_len_append_stop[of num is_digit "CHR ''.''" "'' '' @ item"] assms(2) dot_not_digit
    by simp
  have len: "1 \<le> length num" using assms(1) by (cases num) simp_all
  have np: "match_numbered_prefix ?st"
    unfolding match_numbered_prefix_def Let_def d using len by (simp add: space_is_space)
  have mn: "match_numbered ?st = Some (num, item)"
    unfolding match_numbered_def Let_def d
    using len assms(1) match_space_rest_rewritten[OF assms(3)] by simp
  show ?thesis
    unfolding format_list_line_def Let_def st ind using nb np mn by simp
qed

lemma format_list_line_idem: "format_list_line (format_list_line line) = format_list_line line"
proof (cases "match_bullet (str_lstrip line)")
  case True
  from format_bullet_line[OF True] obtain k r
    where "format_list_line line = replicate (k * 2) CHR '' '' @ ''- '' @ r" by blast
  then show ?thesis by (simp only: format_formatted_bullet)
next
  case nb: False
  show ?thesis
  proof (cases "match_numbered_prefix (str_lstrip line)")
    case False
    with nb have "format_list_line line = line" by (simp add: format_list_line_def Let_def)
    then show ?thesis by simp
  next
    case np: True
    show ?thesis
    proof (cases "match_numbered (str_lstrip line)")
      case None
      with nb np have "format_list_line line = line" by (simp add: format_list_line_def Let_def)
      then show ?thesis by simp
    next
      case (Some p)
      obtain num item where p: "p = (num, item)" by (cases p)
      note m = Some[unfolded p]
      from format_numbered_line(1)[OF nb np m] obtain k
        where "format_list_line line = replicate (k * 2) CHR '' '' @ num @ ''. '' @ item" by blast
      then show ?thesis
        by (simp only: format_formatted_numbered[OF format_numbered_line(2,3,4)[OF nb np m]])
    qed
  qed
qed

lemma format_list_line_no_newline:
  assumes "CHR ''\<newline>'' \<notin> set line"
  shows "CHR ''\<newline>'' \<notin> set (format_list_line line)"
proof (cases "match_bullet (str_lstrip line)")
  case True
  from format_bullet_line[OF True] assms show ?thesis by auto
next
  case nb: False
  show ?thesis
  proof (cases "match_numbered_prefix (str_lstrip line)")
    case False
    with nb assms show ?thesis by (simp add: format_list_line_def Let_def)
  next
    case np: True
    show ?thesis
    proof (cases "match_numbered (str_lstrip line)")
      case None
      with nb np assms show ?thesis by (simp add: format_list_line_def Let_def)
    next
      case (Some p)
      obtain num item where p: "p = (num, item)" by (cases p)
      note m = Some[unfolded p]
      from format_numbered_line(1,5,6)[OF nb np m] assms show ?thesis by auto
    qed
  qed
qed

lemma format_lists_idem: "format_lists (format_lists content) = format_lists content"
proof -
  let ?lines = "map format_list_line (str_split CHR ''\<newline>'' content)"
  have ne: "?lines \<noteq> []" using str_split_not_Nil[of "CHR ''\<newline>''" content] by simp
  have nl: "\<forall>l \<in> set ?lines. CHR ''\<newline>'' \<notin> set l"
    using format_list_line_no_newline str_split_no_sep[of _ "CHR ''\<newline>''" content] by auto
  have "str_split CHR ''\<newline>'' (format_lists content) = ?lines"
    unfolding format_lists_def by (rule str_split_join[OF ne nl])
  then have "format_lists (format_lists content)
      = str_join CHR ''\<newline>'' (map format_list_line ?lines)"
    by (simp add: format_lists_def)
  also have "map format_list_line ?lines = ?lines"
    by (simp add: format_list_line_idem)
  finally show ?thesis by (simp add: format_lists_def)
qed

subsection \<open>Whitespace cleaning\<close>

text \<open>
  \<open>clean_markdown\<close> collapses the runs of newlines first and strips the lines
  afterwards. What follows reads its four substitutions on the list of lines of the
  input, and shows that a second pass changes nothing when no line of the input is a
  non-empty run of blanks.
\<close>

subsection \<open>Substitutions line by line\<close>

text \<open>
  A matcher is local to lines when it never matches at the end of a line, looks at
  nothing beyond the end of the line, and never takes more than the rest of the line.
\<close>

definition line_local :: "matcher \<Rightarrow> bool" where
  "line_local m \<longleftrightarrow>
     (\<forall>bol. m bol [] = None)
     \<and> (\<forall>bol u rest. CHR ''\<newline>'' \<notin> set u \<longrightarrow> m bol (u @ CHR ''\<newline>'' # rest) = m bol u)
     \<and> (\<forall>bol u n. CHR ''\<newline>'' \<notin> set u \<longrightarrow> m bol u = Some n \<longrightarrow> n \<le> length u)"

lemma line_local_Nil: "line_local m \<Longrightarrow> m bol [] = None"
  by (simp add: line_local_def)

lemma line_local_cut:
  "line_local m \<Longrightarrow> CHR ''\<newline>'' \<notin> set u \<Longrightarrow> m bol (u @ CHR ''\<newline>'' # rest) = m bol u"
  by (simp add: line_local_def)

lemma line_local_len:
  "line_local m \<Longrightarrow> CHR ''\<newline>'' \<notin> set u \<Longrightarrow> m bol u = Some n \<Longrightarrow> n \<le> length u"
  unfolding line_local_def by blast

lemma sub_scan_line:
  assumes "line_local m"
  shows "CHR ''\<newline>'' \<notin> set u \<Longrightarrow> k \<le> length u \<Longrightarrow>
     sub_scan m repl b k (u @ CHR ''\<newline>'' # rest)
       = sub_scan m repl b k u @ CHR ''\<newline>'' # sub_scan m repl True 0 rest"
proof (induction u arbitrary: b k)
  case Nil
  then have k: "k = 0" by simp
  have "m b (CHR ''\<newline>'' # rest) = None"
    using line_local_cut[OF assms, of "[]" b rest] line_local_Nil[OF assms] by simp
  with k show ?case by simp
next
  case (Cons c u)
  from Cons.prems have c: "c \<noteq> CHR ''\<newline>''" and u: "CHR ''\<newline>'' \<notin> set u" by auto
  show ?case
  proof (cases "0 < k")
    case True
    with Cons.prems have "k - 1 \<le> length u" by simp
    from Cons.IH[OF u this] True show ?thesis by simp
  next
    case False
    then have k: "k = 0" by simp
    have cut: "m b ((c # u) @ CHR ''\<newline>'' # rest) = m b (c # u)"
      using line_local_cut[OF assms, of "c # u" b rest] Cons.prems by simp
    show ?thesis
    proof (cases "m b (c # u)")
      case None
      with cut k Cons.IH[OF u, of 0] show ?thesis by simp
    next
      case (Some n)
      from line_local_len[OF assms _ Some] Cons.prems have "n - 1 \<le> length u" by simp
      from Cons.IH[OF u this] Some cut k show ?thesis by simp
    qed
  qed
qed

lemma sub_scan_no_newline:
  "CHR ''\<newline>'' \<notin> set s \<Longrightarrow> CHR ''\<newline>'' \<notin> set repl \<Longrightarrow>
     CHR ''\<newline>'' \<notin> set (sub_scan m repl b k s)"
  by (induction s arbitrary: b k) (auto split: option.splits)

lemma re_sub_no_newline:
  "CHR ''\<newline>'' \<notin> set s \<Longrightarrow> CHR ''\<newline>'' \<notin> set repl \<Longrightarrow>
     CHR ''\<newline>'' \<notin> set (re_sub m repl s)"
  unfolding re_sub_def by (rule sub_scan_no_newline)

lemma re_sub_Nil: "re_sub m repl [] = []"
  by (simp add: re_sub_def)

lemma re_sub_join:
  assumes "line_local m"
  shows "ls \<noteq> [] \<Longrightarrow> \<forall>l \<in> set ls. CHR ''\<newline>'' \<notin> set l \<Longrightarrow>
     re_sub m repl (str_join CHR ''\<newline>'' ls)
       = str_join CHR ''\<newline>'' (map (re_sub m repl) ls)"
proof (induction ls)
  case Nil
  then show ?case by simp
next
  case (Cons l ls)
  from Cons.prems have l: "CHR ''\<newline>'' \<notin> set l" by simp
  show ?case
  proof (cases "ls = []")
    case True
    then show ?thesis by simp
  next
    case False
    have "re_sub m repl (l @ CHR ''\<newline>'' # str_join CHR ''\<newline>'' ls)
            = re_sub m repl l @ CHR ''\<newline>'' # re_sub m repl (str_join CHR ''\<newline>'' ls)"
      unfolding re_sub_def by (rule sub_scan_line[OF assms l]) simp
    with False Cons.prems Cons.IH show ?thesis by (simp add: str_join_Cons)
  qed
qed

text \<open>The three line-wise expressions of \<open>clean_markdown\<close> are local to lines.\<close>

lemma span_len_cut: "\<not> P y \<Longrightarrow> span_len P (u @ y # rest) = span_len P u"
  by (induction u) (simp_all add: span_len_def)

lemma span_len_Nil: "span_len P [] = 0"
  by (simp add: span_len_def)

lemma newline_not_blank: "\<not> is_blank CHR ''\<newline>''"
  by (simp add: is_blank_def)

lemma line_local_spaces: "line_local (re_run (\<lambda>c. c = CHR '' '') 2)"
  unfolding line_local_def re_run_def Let_def
  using span_len_le[of "\<lambda>c. c = CHR '' ''"]
  by (auto simp: span_len_cut span_len_Nil split: if_splits)

lemma line_local_leading: "line_local re_leading_blanks"
  unfolding line_local_def re_leading_blanks_def Let_def
  using span_len_le[of is_blank]
  by (auto simp: span_len_cut span_len_Nil newline_not_blank split: if_splits)

lemma drop_span_blank_newline:
  assumes "CHR ''\<newline>'' \<notin> set u"
  shows "(drop (span_len is_blank u) u = [] \<or> take 1 (drop (span_len is_blank u) u) = ''\<newline>'')
         \<longleftrightarrow> drop (span_len is_blank u) u = []"
proof (cases "drop (span_len is_blank u) u")
  case Nil
  then show ?thesis by simp
next
  case (Cons c cs)
  then have "c \<in> set u" by (metis in_set_dropD list.set_intros(1))
  with assms have "c \<noteq> CHR ''\<newline>''" by auto
  with Cons show ?thesis by simp
qed

lemma line_local_trailing: "line_local re_trailing_blanks"
proof -
  have cut: "re_trailing_blanks bol (u @ CHR ''\<newline>'' # rest) = re_trailing_blanks bol u"
    if u: "CHR ''\<newline>'' \<notin> set u" for bol u rest
  proof -
    let ?n = "span_len is_blank u"
    have n: "span_len is_blank (u @ CHR ''\<newline>'' # rest) = ?n"
      by (simp add: span_len_cut newline_not_blank)
    have le: "?n \<le> length u" by (rule span_len_le)
    have d: "drop ?n (u @ CHR ''\<newline>'' # rest) = drop ?n u @ CHR ''\<newline>'' # rest"
      using le by simp
    have "(drop ?n u @ CHR ''\<newline>'' # rest = []
            \<or> take 1 (drop ?n u @ CHR ''\<newline>'' # rest) = ''\<newline>'')
          \<longleftrightarrow> drop ?n u = []"
      using drop_span_blank_newline[OF u] by (cases "drop ?n u") auto
    with drop_span_blank_newline[OF u] show ?thesis
      unfolding re_trailing_blanks_def Let_def n d by simp
  qed
  have len: "n \<le> length u" if "re_trailing_blanks bol u = Some n" for bol u n
    using that span_len_le[of is_blank u]
    by (auto simp: re_trailing_blanks_def Let_def split: if_splits)
  have nil: "re_trailing_blanks bol [] = None" for bol
    by (simp add: re_trailing_blanks_def span_len_Nil)
  show ?thesis
    unfolding line_local_def using cut len nil by blast
qed

subsection \<open>Collapsing newlines, on lines\<close>

definition collapse_newlines :: "string \<Rightarrow> string" where
  "collapse_newlines s = re_sub (re_run (\<lambda>c. c = CHR ''\<newline>'') 3) ''\<newline>\<newline>'' s"

lemma sub_scan_run_bol:
  "sub_scan (re_run P k) repl b j s = sub_scan (re_run P k) repl b' j s"
proof (induction s arbitrary: b b' j)
  case Nil
  show ?case by simp
next
  case (Cons c s)
  have m: "re_run P k b (c # s) = re_run P k b' (c # s)" by (simp add: re_run_def)
  show ?case
    using Cons.IH[of "c = CHR ''\<newline>''" _ "c = CHR ''\<newline>''"]
    by (simp add: m split: option.splits)
qed

lemma sub_scan_run_skip:
  "j \<le> length s \<Longrightarrow>
     sub_scan (re_run P k) repl b j s = sub_scan (re_run P k) repl True 0 (drop j s)"
proof (induction s arbitrary: b j)
  case Nil
  then show ?case by simp
next
  case (Cons c s)
  show ?case
  proof (cases j)
    case 0
    then show ?thesis using sub_scan_run_bol[of P k repl b 0 "c # s" True] by simp
  next
    case (Suc i)
    with Cons.prems have "i \<le> length s" by simp
    from Cons.IH[OF this] Suc show ?thesis by simp
  qed
qed

lemma re_sub_run_unfold:
  assumes "1 \<le> k"
  shows "re_sub (re_run P k) repl (c # s) =
     (if k \<le> span_len P (c # s)
      then repl @ re_sub (re_run P k) repl (drop (span_len P (c # s)) (c # s))
      else c # re_sub (re_run P k) repl s)"
proof (cases "k \<le> span_len P (c # s)")
  case True
  let ?n = "span_len P (c # s)"
  from True have m: "re_run P k True (c # s) = Some ?n" by (simp add: re_run_def)
  have "?n - 1 \<le> length s" using span_len_le[of P "c # s"] by simp
  from sub_scan_run_skip[OF this, of P k repl "c = CHR ''\<newline>''"]
  have "sub_scan (re_run P k) repl (c = CHR ''\<newline>'') (?n - 1) s
          = sub_scan (re_run P k) repl True 0 (drop (?n - 1) s)" .
  moreover have "drop ?n (c # s) = drop (?n - 1) s"
    using True assms by (cases ?n) simp_all
  ultimately show ?thesis using True m by (simp add: re_sub_def)
next
  case False
  then have m: "re_run P k True (c # s) = None" by (simp add: re_run_def)
  with False sub_scan_run_bol[of P k repl "c = CHR ''\<newline>''" 0 s True]
  show ?thesis by (simp add: re_sub_def)
qed

lemma span_len_Cons: "span_len P (c # s) = (if P c then Suc (span_len P s) else 0)"
  by (simp add: span_len_def)

lemma collapse_newlines_Nil: "collapse_newlines [] = []"
  by (simp add: collapse_newlines_def re_sub_Nil)

lemma collapse_newlines_copy:
  "c \<noteq> CHR ''\<newline>'' \<Longrightarrow> collapse_newlines (c # s) = c # collapse_newlines s"
  unfolding collapse_newlines_def
  by (subst re_sub_run_unfold) (simp_all add: span_len_Cons)

lemma collapse_newlines_append:
  "CHR ''\<newline>'' \<notin> set l \<Longrightarrow> collapse_newlines (l @ t) = l @ collapse_newlines t"
  by (induction l) (auto simp: collapse_newlines_copy)

lemma collapse_newlines_line:
  "CHR ''\<newline>'' \<notin> set l \<Longrightarrow> collapse_newlines l = l"
  using collapse_newlines_append[of l "[]"] by (simp add: collapse_newlines_Nil)

lemma span_newlines_less2:
  "take 2 t \<noteq> ''\<newline>\<newline>'' \<Longrightarrow> span_len (\<lambda>c. c = CHR ''\<newline>'') t < 2"
proof (cases t)
  case Nil
  then show ?thesis by (simp add: span_len_Nil)
next
  case (Cons a t')
  assume ne: "take 2 t \<noteq> ''\<newline>\<newline>''"
  show ?thesis
  proof (cases t')
    case Nil
    with Cons show ?thesis by (simp add: span_len_Cons span_len_Nil)
  next
    case (Cons b t'')
    with \<open>t = a # t'\<close> ne show ?thesis by (auto simp: span_len_Cons)
  qed
qed

lemma collapse_newlines_one:
  assumes "take 2 t \<noteq> ''\<newline>\<newline>''"
  shows "collapse_newlines (CHR ''\<newline>'' # t) = CHR ''\<newline>'' # collapse_newlines t"
proof -
  from span_newlines_less2[OF assms]
  have "\<not> 3 \<le> span_len (\<lambda>c. c = CHR ''\<newline>'') (CHR ''\<newline>'' # t)"
    by (simp add: span_len_Cons)
  then show ?thesis
    unfolding collapse_newlines_def by (subst re_sub_run_unfold) simp_all
qed

lemma collapse_newlines_three:
  "collapse_newlines (CHR ''\<newline>'' # CHR ''\<newline>'' # CHR ''\<newline>'' # t)
     = collapse_newlines (CHR ''\<newline>'' # CHR ''\<newline>'' # t)"
proof -
  let ?P = "\<lambda>c. c = CHR ''\<newline>''"
  let ?n = "span_len ?P t"
  have le: "?n \<le> length t" by (rule span_len_le)
  have lhs: "collapse_newlines (CHR ''\<newline>'' # CHR ''\<newline>'' # CHR ''\<newline>'' # t)
               = ''\<newline>\<newline>'' @ collapse_newlines (drop ?n t)"
    unfolding collapse_newlines_def
    by (subst re_sub_run_unfold) (simp_all add: span_len_Cons)
  show ?thesis
  proof (cases "?n = 0")
    case True
    then have t2: "take 2 (CHR ''\<newline>'' # t) \<noteq> ''\<newline>\<newline>''"
      by (cases t) (auto simp: span_len_Cons split: if_splits)
    have t1: "take 2 t \<noteq> ''\<newline>\<newline>''"
      using True by (cases t) (auto simp: span_len_Cons split: if_splits)
    have "collapse_newlines (CHR ''\<newline>'' # CHR ''\<newline>'' # t)
            = CHR ''\<newline>'' # CHR ''\<newline>'' # collapse_newlines t"
      by (simp add: collapse_newlines_one[OF t2] collapse_newlines_one[OF t1])
    with lhs True show ?thesis by simp
  next
    case False
    then have "3 \<le> span_len ?P (CHR ''\<newline>'' # CHR ''\<newline>'' # t)"
      by (simp add: span_len_Cons)
    then have "collapse_newlines (CHR ''\<newline>'' # CHR ''\<newline>'' # t)
            = ''\<newline>\<newline>'' @ collapse_newlines (drop ?n t)"
      unfolding collapse_newlines_def
      by (subst re_sub_run_unfold) (simp_all add: span_len_Cons)
    with lhs show ?thesis by simp
  qed
qed

text \<open>
  On the list of lines, collapsing newlines drops one of two adjacent empty lines that
  have a line before them and a line after them, until there is no such pair.
\<close>

fun collapse_blank_lines :: "string list \<Rightarrow> string list" where
  "collapse_blank_lines (l # a # b # c # ls) =
     (if a = [] \<and> b = [] then collapse_blank_lines (l # b # c # ls)
      else l # collapse_blank_lines (a # b # c # ls))"
| "collapse_blank_lines ls = ls"

lemma collapse_blank_lines_Nil: "collapse_blank_lines ls = [] \<longleftrightarrow> ls = []"
  by (induction ls rule: collapse_blank_lines.induct) auto

lemma join_two_newlines:
  assumes "\<forall>l \<in> set (a # b # ls). CHR ''\<newline>'' \<notin> set l" and "\<not> (a = [] \<and> b = [])"
  shows "take 2 (str_join CHR ''\<newline>'' (a # b # ls)) \<noteq> ''\<newline>\<newline>''"
proof (cases a)
  case (Cons x xs)
  with assms(1) have "x \<noteq> CHR ''\<newline>''" by auto
  with Cons show ?thesis by simp
next
  case Nil
  with assms(2) obtain y ys where b: "b = y # ys" by (cases b) auto
  with assms(1) have "y \<noteq> CHR ''\<newline>''" by auto
  with Nil b show ?thesis by (cases ls) simp_all
qed

lemma join_short_newlines:
  assumes "\<forall>l \<in> set ls. CHR ''\<newline>'' \<notin> set l" and "length ls \<le> 2"
  shows "take 2 (str_join CHR ''\<newline>'' ls) \<noteq> ''\<newline>\<newline>''"
proof (cases ls)
  case Nil
  then show ?thesis by simp
next
  case (Cons a ls')
  show ?thesis
  proof (cases ls')
    case Nil
    with Cons assms(1) show ?thesis by (cases a; cases "tl a") auto
  next
    case (Cons b ls'')
    with \<open>ls = a # ls'\<close> assms(2) have ls: "ls = [a, b]" by simp
    with assms(1) show ?thesis by (cases a; cases b) auto
  qed
qed

lemma collapse_newlines_short:
  assumes "\<forall>l \<in> set ls. CHR ''\<newline>'' \<notin> set l" and "length ls \<le> 3"
  shows "collapse_newlines (str_join CHR ''\<newline>'' ls) = str_join CHR ''\<newline>'' ls"
proof (cases ls)
  case Nil
  then show ?thesis by (simp add: collapse_newlines_Nil)
next
  case (Cons a ls1)
  with assms have a: "CHR ''\<newline>'' \<notin> set a" and ls1: "\<forall>l \<in> set ls1. CHR ''\<newline>'' \<notin> set l"
    and len1: "length ls1 \<le> 2" by simp_all
  show ?thesis
  proof (cases ls1)
    case Nil
    with Cons a show ?thesis by (simp add: collapse_newlines_line)
  next
    case (Cons b ls2)
    with ls1 len1 have b: "CHR ''\<newline>'' \<notin> set b" and ls2: "\<forall>l \<in> set ls2. CHR ''\<newline>'' \<notin> set l"
      and len2: "length ls2 \<le> 1" by simp_all
    have t1: "take 2 (str_join CHR ''\<newline>'' ls1) \<noteq> ''\<newline>\<newline>''"
      by (rule join_short_newlines[OF ls1 len1])
    have inner: "collapse_newlines (str_join CHR ''\<newline>'' ls1) = str_join CHR ''\<newline>'' ls1"
    proof (cases ls2)
      case Nil
      with Cons b show ?thesis by (simp add: collapse_newlines_line)
    next
      case (Cons c ls3)
      with len2 have ls2': "ls2 = [c]" by simp
      with ls2 have c: "CHR ''\<newline>'' \<notin> set c" by simp
      have "take 2 c \<noteq> ''\<newline>\<newline>''" using c by (cases c; cases "tl c") auto
      from collapse_newlines_one[OF this] c
      show ?thesis using \<open>ls1 = b # ls2\<close> ls2' b
        by (simp add: collapse_newlines_append collapse_newlines_line)
    qed
    from \<open>ls = a # ls1\<close> Cons a inner collapse_newlines_one[OF t1] show ?thesis
      by (simp add: collapse_newlines_append str_join_Cons)
  qed
qed

lemma collapse_newlines_lines:
  "\<forall>l \<in> set ls. CHR ''\<newline>'' \<notin> set l \<Longrightarrow>
     collapse_newlines (str_join CHR ''\<newline>'' ls)
       = str_join CHR ''\<newline>'' (collapse_blank_lines ls)"
proof (induction ls rule: collapse_blank_lines.induct)
  case (1 l a b c ls)
  from "1.prems" have l: "CHR ''\<newline>'' \<notin> set l"
    and rest: "\<forall>x \<in> set (a # b # c # ls). CHR ''\<newline>'' \<notin> set x" by simp_all
  show ?case
  proof (cases "a = [] \<and> b = []")
    case True
    from "1.prems" have prem': "\<forall>x \<in> set (l # b # c # ls). CHR ''\<newline>'' \<notin> set x" by simp
    have "collapse_newlines (str_join CHR ''\<newline>'' (l # a # b # c # ls))
            = l @ collapse_newlines (CHR ''\<newline>'' # CHR ''\<newline>'' # CHR ''\<newline>''
                  # str_join CHR ''\<newline>'' (c # ls))"
      using True l by (simp add: collapse_newlines_append)
    also have "\<dots> = l @ collapse_newlines (CHR ''\<newline>'' # CHR ''\<newline>''
                  # str_join CHR ''\<newline>'' (c # ls))"
      by (simp only: collapse_newlines_three)
    also have "\<dots> = collapse_newlines (str_join CHR ''\<newline>'' (l # b # c # ls))"
      using True l by (simp add: collapse_newlines_append)
    also have "\<dots> = str_join CHR ''\<newline>'' (collapse_blank_lines (l # b # c # ls))"
      using "1.IH"(1)[OF True prem'] .
    finally show ?thesis using True by simp
  next
    case False
    have t: "take 2 (str_join CHR ''\<newline>'' (a # b # c # ls)) \<noteq> ''\<newline>\<newline>''"
      by (rule join_two_newlines[OF rest False])
    have ne: "collapse_blank_lines (a # b # c # ls) \<noteq> []"
      by (simp only: collapse_blank_lines_Nil) simp
    have "collapse_newlines (str_join CHR ''\<newline>'' (l # a # b # c # ls))
            = l @ collapse_newlines (CHR ''\<newline>'' # str_join CHR ''\<newline>'' (a # b # c # ls))"
      using l by (simp add: collapse_newlines_append)
    also have "\<dots> = l @ CHR ''\<newline>'' # collapse_newlines (str_join CHR ''\<newline>'' (a # b # c # ls))"
      by (simp only: collapse_newlines_one[OF t])
    also have "\<dots> = l @ CHR ''\<newline>'' # str_join CHR ''\<newline>'' (collapse_blank_lines (a # b # c # ls))"
      using "1.IH"(2)[OF False rest] by simp
    also have "\<dots> = str_join CHR ''\<newline>'' (l # collapse_blank_lines (a # b # c # ls))"
      using ne by (simp add: str_join_Cons)
    also have "l # collapse_blank_lines (a # b # c # ls) = collapse_blank_lines (l # a # b # c # ls)"
      using False by auto
    finally show ?thesis .
  qed
next
  show "collapse_newlines (str_join CHR ''\<newline>'' [])
          = str_join CHR ''\<newline>'' (collapse_blank_lines [])"
    by (simp add: collapse_newlines_Nil)
next
  fix v :: string
  assume "\<forall>l \<in> set [v]. CHR ''\<newline>'' \<notin> set l"
  then show "collapse_newlines (str_join CHR ''\<newline>'' [v])
          = str_join CHR ''\<newline>'' (collapse_blank_lines [v])"
    using collapse_newlines_short[of "[v]"] by simp
next
  fix v vb :: string
  assume "\<forall>l \<in> set [v, vb]. CHR ''\<newline>'' \<notin> set l"
  then show "collapse_newlines (str_join CHR ''\<newline>'' [v, vb])
          = str_join CHR ''\<newline>'' (collapse_blank_lines [v, vb])"
    using collapse_newlines_short[of "[v, vb]"] by simp
next
  fix v vb vd :: string
  assume "\<forall>l \<in> set [v, vb, vd]. CHR ''\<newline>'' \<notin> set l"
  then show "collapse_newlines (str_join CHR ''\<newline>'' [v, vb, vd])
          = str_join CHR ''\<newline>'' (collapse_blank_lines [v, vb, vd])"
    using collapse_newlines_short[of "[v, vb, vd]"] by simp
qed

subsection \<open>Cleaning one line\<close>

definition collapse_spaces :: "string \<Rightarrow> string" where
  "collapse_spaces s = re_sub (re_run (\<lambda>c. c = CHR '' '') 2) '' '' s"

definition strip_leading :: "string \<Rightarrow> string" where
  "strip_leading s = re_sub re_leading_blanks [] s"

definition strip_trailing :: "string \<Rightarrow> string" where
  "strip_trailing s = re_sub re_trailing_blanks [] s"

definition clean_line :: "string \<Rightarrow> string" where
  "clean_line u = strip_trailing (strip_leading (collapse_spaces u))"

definition rstrip_blanks :: "string \<Rightarrow> string" where
  "rstrip_blanks u = rev (dropWhile is_blank (rev u))"

fun no_double_space :: "string \<Rightarrow> bool" where
  "no_double_space (a # b # s) = (\<not> (a = CHR '' '' \<and> b = CHR '' '') \<and> no_double_space (b # s))"
| "no_double_space s = True"

definition normal_line :: "string \<Rightarrow> bool" where
  "normal_line z \<longleftrightarrow>
     no_double_space z \<and> (z = [] \<or> (\<not> is_blank (hd z) \<and> \<not> is_blank (last z)))"

text \<open>Leading blanks.\<close>

lemma leading_not_bol:
  "CHR ''\<newline>'' \<notin> set s \<Longrightarrow> sub_scan re_leading_blanks [] False k s = drop k s"
proof (induction s arbitrary: k)
  case Nil
  show ?case by simp
next
  case (Cons c s)
  then have c: "c \<noteq> CHR ''\<newline>''" and s: "CHR ''\<newline>'' \<notin> set s" by auto
  have m: "re_leading_blanks False (c # s) = None"
    by (simp add: re_leading_blanks_def Let_def)
  show ?case
  proof (cases k)
    case 0
    with Cons.IH[OF s, of 0] c m show ?thesis by simp
  next
    case (Suc j)
    with Cons.IH[OF s, of j] c show ?thesis by simp
  qed
qed

lemma dropWhile_span: "dropWhile P s = drop (span_len P s) s"
  by (simp add: span_len_def dropWhile_eq_drop)

lemma strip_leading_line:
  assumes "CHR ''\<newline>'' \<notin> set u"
  shows "strip_leading u = dropWhile is_blank u"
proof (cases u)
  case Nil
  then show ?thesis by (simp add: strip_leading_def re_sub_Nil)
next
  case (Cons c s)
  with assms have c: "c \<noteq> CHR ''\<newline>''" and s: "CHR ''\<newline>'' \<notin> set s" by auto
  let ?n = "span_len is_blank (c # s)"
  show ?thesis
  proof (cases "is_blank c")
    case True
    then have n: "?n = Suc (span_len is_blank s)" by (simp add: span_len_Cons)
    then have m: "re_leading_blanks True (c # s) = Some ?n"
      by (simp add: re_leading_blanks_def Let_def)
    have "strip_leading (c # s) = sub_scan re_leading_blanks [] False (?n - 1) s"
      using m c by (simp add: strip_leading_def re_sub_def)
    also have "\<dots> = drop (?n - 1) s" by (rule leading_not_bol[OF s])
    also have "\<dots> = dropWhile is_blank (c # s)"
      using True n by (simp add: dropWhile_span)
    finally show ?thesis using Cons by simp
  next
    case False
    then have m: "re_leading_blanks True (c # s) = None"
      by (simp add: re_leading_blanks_def Let_def span_len_Cons)
    with c leading_not_bol[OF s, of 0] False Cons show ?thesis
      by (simp add: strip_leading_def re_sub_def)
  qed
qed

text \<open>Trailing blanks.\<close>

lemma rstrip_blanks_Cons:
  "rstrip_blanks (c # s) = (if \<forall>x \<in> set (c # s). is_blank x then [] else c # rstrip_blanks s)"
proof (cases "\<forall>x \<in> set s. is_blank x")
  case True
  then have all: "\<And>x. x \<in> set (rev s) \<Longrightarrow> is_blank x" by simp
  have a: "dropWhile is_blank (rev s @ [c]) = dropWhile is_blank [c]"
    by (rule dropWhile_append2) (rule all)
  from True have b: "dropWhile is_blank (rev s) = []" by simp
  show ?thesis
  proof (cases "is_blank c")
    case True
    with \<open>\<forall>x \<in> set s. is_blank x\<close> a show ?thesis by (simp add: rstrip_blanks_def)
  next
    case False
    with a b show ?thesis by (simp add: rstrip_blanks_def)
  qed
next
  case False
  then obtain x where "x \<in> set (rev s)" and "\<not> is_blank x" by auto
  then have "dropWhile is_blank (rev s @ [c]) = dropWhile is_blank (rev s) @ [c]"
    by (simp add: dropWhile_append1)
  with False show ?thesis by (auto simp: rstrip_blanks_def)
qed

lemma sub_scan_skip_all: "length s \<le> k \<Longrightarrow> sub_scan m repl b k s = []"
  by (induction s arbitrary: b k) auto

lemma trailing_match:
  assumes "CHR ''\<newline>'' \<notin> set s" and "s \<noteq> []"
  shows "re_trailing_blanks b s =
           (if \<forall>x \<in> set s. is_blank x then Some (length s) else None)"
proof (cases "\<forall>x \<in> set s. is_blank x")
  case True
  then have "span_len is_blank s = length s" by (rule span_len_all)
  moreover from assms(2) have "1 \<le> length s" by (cases s) simp_all
  ultimately show ?thesis using True by (simp add: re_trailing_blanks_def Let_def)
next
  case False
  have "drop (span_len is_blank s) s \<noteq> []"
  proof
    assume "drop (span_len is_blank s) s = []"
    then have "span_len is_blank s = length s" using span_len_le[of is_blank s] by simp
    then have "\<forall>x \<in> set s. is_blank x" using span_len_all_D by blast
    with False show False by simp
  qed
  with drop_span_blank_newline[OF assms(1)] False show ?thesis
    by (simp add: re_trailing_blanks_def Let_def)
qed

lemma trailing_scan_line:
  "CHR ''\<newline>'' \<notin> set u \<Longrightarrow> sub_scan re_trailing_blanks [] b 0 u = rstrip_blanks u"
proof (induction u arbitrary: b)
  case Nil
  show ?case by (simp add: rstrip_blanks_def)
next
  case (Cons c s)
  then have s: "CHR ''\<newline>'' \<notin> set s" by auto
  have m: "re_trailing_blanks b (c # s) =
             (if \<forall>x \<in> set (c # s). is_blank x then Some (length (c # s)) else None)"
    by (rule trailing_match[OF Cons.prems]) simp
  show ?case
  proof (cases "\<forall>x \<in> set (c # s). is_blank x")
    case True
    then have mm: "re_trailing_blanks b (c # s) = Some (length (c # s))"
      unfolding m by (rule if_P)
    have "sub_scan re_trailing_blanks [] b 0 (c # s)
                   = sub_scan re_trailing_blanks [] (c = CHR ''\<newline>'') (length s) s"
      by (simp add: mm)
    also have "\<dots> = []" by (rule sub_scan_skip_all) simp
    also have "[] = rstrip_blanks (c # s)" using True by (simp add: rstrip_blanks_Cons)
    finally show ?thesis .
  next
    case False
    then have mm: "re_trailing_blanks b (c # s) = None"
      unfolding m by (rule if_not_P)
    have "sub_scan re_trailing_blanks [] b 0 (c # s)
                   = c # sub_scan re_trailing_blanks [] (c = CHR ''\<newline>'') 0 s"
      by (simp add: mm)
    also have "\<dots> = c # rstrip_blanks s" by (simp only: Cons.IH[OF s])
    also have "\<dots> = rstrip_blanks (c # s)" using False by (simp add: rstrip_blanks_Cons)
    finally show ?thesis .
  qed
qed

lemma strip_trailing_line:
  "CHR ''\<newline>'' \<notin> set u \<Longrightarrow> strip_trailing u = rstrip_blanks u"
  by (simp add: strip_trailing_def re_sub_def trailing_scan_line)

lemma rstrip_blanks_prefix: "\<exists>t. u = rstrip_blanks u @ t"
proof -
  have "rstrip_blanks u @ rev (takeWhile is_blank (rev u))
          = rev (takeWhile is_blank (rev u) @ dropWhile is_blank (rev u))"
    by (simp only: rstrip_blanks_def rev_append)
  also have "\<dots> = rev (rev u)" by (simp only: takeWhile_dropWhile_id)
  also have "\<dots> = u" by (rule rev_rev_ident)
  finally have "u = rstrip_blanks u @ rev (takeWhile is_blank (rev u))" by (rule sym)
  then show ?thesis ..
qed

lemma rstrip_blanks_last: "rstrip_blanks u \<noteq> [] \<Longrightarrow> \<not> is_blank (last (rstrip_blanks u))"
  unfolding rstrip_blanks_def by (simp add: last_rev hd_dropWhile)

lemma rstrip_blanks_id: "u = [] \<or> \<not> is_blank (last u) \<Longrightarrow> rstrip_blanks u = u"
proof (cases u rule: rev_cases)
  case Nil
  then show ?thesis by (simp add: rstrip_blanks_def)
next
  case (snoc ys y)
  assume "u = [] \<or> \<not> is_blank (last u)"
  with snoc show ?thesis by (simp add: rstrip_blanks_def)
qed

text \<open>Runs of spaces.\<close>

lemma collapse_spaces_Nil: "collapse_spaces [] = []"
  by (simp add: collapse_spaces_def re_sub_Nil)

lemma collapse_spaces_unfold:
  "collapse_spaces (c # s) =
     (if 2 \<le> span_len (\<lambda>c. c = CHR '' '') (c # s)
      then CHR '' '' # collapse_spaces (drop (span_len (\<lambda>c. c = CHR '' '') (c # s)) (c # s))
      else c # collapse_spaces s)"
  unfolding collapse_spaces_def by (subst re_sub_run_unfold) simp_all

lemma collapse_spaces_run:
  assumes "2 \<le> span_len (\<lambda>c. c = CHR '' '') (c # s)"
  shows "collapse_spaces (c # s)
     = CHR '' '' # collapse_spaces (drop (span_len (\<lambda>c. c = CHR '' '') (c # s)) (c # s))"
  by (subst collapse_spaces_unfold) (rule if_P[OF assms])

lemma collapse_spaces_step:
  assumes "\<not> 2 \<le> span_len (\<lambda>c. c = CHR '' '') (c # s)"
  shows "collapse_spaces (c # s) = c # collapse_spaces s"
  by (subst collapse_spaces_unfold) (rule if_not_P[OF assms])

lemma no_double_space_Cons:
  "no_double_space (a # s) \<longleftrightarrow>
     (s = [] \<or> \<not> (a = CHR '' '' \<and> hd s = CHR '' '')) \<and> no_double_space s"
  by (cases s) auto

lemma collapse_spaces_hd:
  "collapse_spaces s \<noteq> [] \<Longrightarrow> hd (collapse_spaces s) = CHR '' '' \<Longrightarrow>
     s \<noteq> [] \<and> hd s = CHR '' ''"
proof (cases s)
  case Nil
  assume "collapse_spaces s \<noteq> []"
  with Nil show ?thesis by (simp add: collapse_spaces_Nil)
next
  case (Cons c t)
  assume h: "hd (collapse_spaces s) = CHR '' ''"
  show ?thesis
  proof (cases "2 \<le> span_len (\<lambda>c. c = CHR '' '') (c # t)")
    case True
    then have "c = CHR '' ''" by (simp add: span_len_Cons split: if_splits)
    with Cons show ?thesis by simp
  next
    case False
    from h Cons have "c = CHR '' ''" by (simp add: collapse_spaces_step[OF False])
    with Cons show ?thesis by simp
  qed
qed

lemma drop_span_hd:
  "drop (span_len P s) s \<noteq> [] \<Longrightarrow> \<not> P (hd (drop (span_len P s) s))"
proof -
  assume ne: "drop (span_len P s) s \<noteq> []"
  then have lt: "span_len P s < length s" by simp
  have "hd (drop (span_len P s) s) = s ! span_len P s" using lt by (rule hd_drop_conv_nth)
  with span_len_stop[OF lt] show ?thesis by simp
qed

lemma collapse_spaces_normal: "no_double_space (collapse_spaces s)"
proof (induction s rule: length_induct)
  case (1 s)
  show ?case
  proof (cases s)
    case Nil
    then show ?thesis by (simp add: collapse_spaces_Nil)
  next
    case (Cons c t)
    let ?n = "span_len (\<lambda>c. c = CHR '' '') (c # t)"
    show ?thesis
    proof (cases "2 \<le> ?n")
      case True
      let ?rest = "drop ?n (c # t)"
      have "length ?rest < length s" using True Cons by simp
      with 1 have IH: "no_double_space (collapse_spaces ?rest)" by blast
      have "collapse_spaces ?rest = [] \<or> hd (collapse_spaces ?rest) \<noteq> CHR '' ''"
      proof (rule disjCI)
        assume "\<not> hd (collapse_spaces ?rest) \<noteq> CHR '' ''"
        then have h: "hd (collapse_spaces ?rest) = CHR '' ''" by simp
        show "collapse_spaces ?rest = []"
        proof (rule ccontr)
          assume ne: "collapse_spaces ?rest \<noteq> []"
          from collapse_spaces_hd[OF ne h] have "?rest \<noteq> []" and "hd ?rest = CHR '' ''" by simp_all
          with drop_span_hd[of "\<lambda>c. c = CHR '' ''" "c # t"] show False by simp
        qed
      qed
      with IH have "no_double_space (CHR '' '' # collapse_spaces ?rest)"
        by (simp add: no_double_space_Cons)
      then show ?thesis unfolding Cons by (simp only: collapse_spaces_run[OF True])
    next
      case False
      have "length t < length s" using Cons by simp
      with 1 have IH: "no_double_space (collapse_spaces t)" by blast
      have "collapse_spaces t = [] \<or> \<not> (c = CHR '' '' \<and> hd (collapse_spaces t) = CHR '' '')"
      proof (rule disjCI)
        assume "\<not> \<not> (c = CHR '' '' \<and> hd (collapse_spaces t) = CHR '' '')"
        then have c: "c = CHR '' ''" and h: "hd (collapse_spaces t) = CHR '' ''" by simp_all
        show "collapse_spaces t = []"
        proof (rule ccontr)
          assume ne: "collapse_spaces t \<noteq> []"
          from collapse_spaces_hd[OF ne h] obtain d t' where t: "t = d # t'" and "d = CHR '' ''"
            by (cases t) auto
          with c False show False by (simp add: span_len_Cons)
        qed
      qed
      with IH have "no_double_space (c # collapse_spaces t)"
        by (simp add: no_double_space_Cons)
      then show ?thesis unfolding Cons by (simp only: collapse_spaces_step[OF False])
    qed
  qed
qed

lemma collapse_spaces_id: "no_double_space z \<Longrightarrow> collapse_spaces z = z"
proof (induction z)
  case Nil
  show ?case by (rule collapse_spaces_Nil)
next
  case (Cons c t)
  from Cons.prems have t: "no_double_space t" by (simp add: no_double_space_Cons)
  have "\<not> 2 \<le> span_len (\<lambda>c. c = CHR '' '') (c # t)"
    using Cons.prems by (cases t) (auto simp: span_len_Cons span_len_Nil)
  from collapse_spaces_step[OF this] Cons.IH[OF t] show ?case by simp
qed

lemma collapse_spaces_keeps:
  "filter (\<lambda>c. c \<noteq> CHR '' '') (collapse_spaces s) = filter (\<lambda>c. c \<noteq> CHR '' '') s"
proof (induction s rule: length_induct)
  case (1 s)
  let ?Q = "\<lambda>c. c \<noteq> CHR '' ''"
  show ?case
  proof (cases s)
    case Nil
    then show ?thesis by (simp add: collapse_spaces_Nil)
  next
    case (Cons c t)
    let ?P = "\<lambda>c. c = CHR '' ''"
    define n where "n = span_len ?P (c # t)"
    define rest where "rest = drop n (c # t)"
    define pre where "pre = take n (c # t)"
    show ?thesis
    proof (cases "2 \<le> span_len ?P (c # t)")
      case True
      have "length rest < length s" using True Cons by (simp add: rest_def n_def)
      with 1 have IH: "filter ?Q (collapse_spaces rest) = filter ?Q rest" by blast
      have "\<And>x. x \<in> set pre \<Longrightarrow> x = CHR '' ''"
        unfolding pre_def n_def by (rule span_len_prefix)
      then have nil: "filter ?Q pre = []" by (simp add: filter_empty_conv)
      have split: "c # t = pre @ rest" by (simp add: pre_def rest_def)
      have e: "collapse_spaces (c # t) = CHR '' '' # collapse_spaces rest"
        unfolding rest_def n_def by (rule collapse_spaces_run[OF True])
      have "filter ?Q (collapse_spaces (c # t)) = filter ?Q (collapse_spaces rest)"
        unfolding e by simp
      also have "\<dots> = filter ?Q rest" by (rule IH)
      also have "\<dots> = filter ?Q pre @ filter ?Q rest" by (simp only: nil append_Nil)
      also have "\<dots> = filter ?Q (pre @ rest)" by (rule filter_append[symmetric])
      finally show ?thesis unfolding Cons split .
    next
      case False
      have "length t < length s" using Cons by simp
      with 1 have IH: "filter ?Q (collapse_spaces t) = filter ?Q t" by blast
      have "filter ?Q (collapse_spaces (c # t)) = filter ?Q (c # collapse_spaces t)"
        by (simp only: collapse_spaces_step[OF False])
      also have "\<dots> = filter ?Q (c # t)" using IH by simp
      finally show ?thesis unfolding Cons .
    qed
  qed
qed

lemma no_double_space_append: "no_double_space (a @ b) \<Longrightarrow> no_double_space a \<and> no_double_space b"
proof (induction a)
  case Nil
  then show ?case by simp
next
  case (Cons x a)
  then have "no_double_space (a @ b)" by (simp add: no_double_space_Cons)
  with Cons.IH have IH: "no_double_space a" "no_double_space b" by simp_all
  from Cons.prems have "a @ b = [] \<or> \<not> (x = CHR '' '' \<and> hd (a @ b) = CHR '' '')"
    by (simp add: no_double_space_Cons)
  then have "a = [] \<or> \<not> (x = CHR '' '' \<and> hd a = CHR '' '')" by (cases a) auto
  with IH show ?case by (simp add: no_double_space_Cons)
qed

lemma collapse_spaces_no_newline:
  "CHR ''\<newline>'' \<notin> set u \<Longrightarrow> CHR ''\<newline>'' \<notin> set (collapse_spaces u)"
  unfolding collapse_spaces_def by (rule re_sub_no_newline) simp_all

lemma clean_line_eq:
  assumes "CHR ''\<newline>'' \<notin> set u"
  shows "clean_line u = rstrip_blanks (dropWhile is_blank (collapse_spaces u))"
proof -
  have c: "CHR ''\<newline>'' \<notin> set (collapse_spaces u)"
    using assms by (rule collapse_spaces_no_newline)
  then have d: "CHR ''\<newline>'' \<notin> set (dropWhile is_blank (collapse_spaces u))"
    by (auto dest: set_dropWhileD)
  show ?thesis
    unfolding clean_line_def strip_leading_line[OF c] by (rule strip_trailing_line[OF d])
qed

lemma clean_line_Nil: "clean_line [] = []"
  by (simp add: clean_line_eq collapse_spaces_Nil rstrip_blanks_def)

lemma clean_line_no_newline:
  "CHR ''\<newline>'' \<notin> set u \<Longrightarrow> CHR ''\<newline>'' \<notin> set (clean_line u)"
  unfolding clean_line_def strip_leading_def strip_trailing_def collapse_spaces_def
  by (intro re_sub_no_newline) simp_all

lemma rstrip_blanks_hd: "rstrip_blanks u \<noteq> [] \<Longrightarrow> hd (rstrip_blanks u) = hd u"
proof -
  assume ne: "rstrip_blanks u \<noteq> []"
  from rstrip_blanks_prefix[of u] obtain t where "u = rstrip_blanks u @ t" ..
  then have "hd u = hd (rstrip_blanks u @ t)" by simp
  also have "\<dots> = hd (rstrip_blanks u)" using ne by (rule hd_append2)
  finally show ?thesis by (rule sym)
qed

lemma rstrip_blanks_no_double: "no_double_space u \<Longrightarrow> no_double_space (rstrip_blanks u)"
proof -
  assume u: "no_double_space u"
  from rstrip_blanks_prefix[of u] obtain t where "u = rstrip_blanks u @ t" ..
  with u have "no_double_space (rstrip_blanks u @ t)" by simp
  then show ?thesis by (rule no_double_space_append[THEN conjunct1])
qed

lemma dropWhile_no_double: "no_double_space u \<Longrightarrow> no_double_space (dropWhile P u)"
proof -
  assume u: "no_double_space u"
  have "u = takeWhile P u @ dropWhile P u" by simp
  with u have "no_double_space (takeWhile P u @ dropWhile P u)" by simp
  then show ?thesis by (rule no_double_space_append[THEN conjunct2])
qed

lemma clean_line_normal:
  assumes "CHR ''\<newline>'' \<notin> set u"
  shows "normal_line (clean_line u)"
proof -
  let ?d = "dropWhile is_blank (collapse_spaces u)"
  have eq: "clean_line u = rstrip_blanks ?d" using assms by (rule clean_line_eq)
  have nd: "no_double_space (rstrip_blanks ?d)"
    by (intro rstrip_blanks_no_double dropWhile_no_double collapse_spaces_normal)
  have ends: "\<not> is_blank (hd (rstrip_blanks ?d)) \<and> \<not> is_blank (last (rstrip_blanks ?d))"
    if ne: "rstrip_blanks ?d \<noteq> []"
  proof
    have "rstrip_blanks [] = []" by (simp add: rstrip_blanks_def)
    with ne have "?d \<noteq> []" by metis
    then have "\<not> is_blank (hd ?d)" by (rule hd_dropWhile)
    then show "\<not> is_blank (hd (rstrip_blanks ?d))" unfolding rstrip_blanks_hd[OF ne] .
    from ne show "\<not> is_blank (last (rstrip_blanks ?d))" by (rule rstrip_blanks_last)
  qed
  show ?thesis unfolding eq normal_line_def using nd ends by blast
qed

lemma clean_line_id:
  assumes "normal_line z" and "CHR ''\<newline>'' \<notin> set z"
  shows "clean_line z = z"
proof -
  from assms(1) have nd: "no_double_space z"
    and ends: "z = [] \<or> (\<not> is_blank (hd z) \<and> \<not> is_blank (last z))"
    by (simp_all add: normal_line_def)
  have c: "collapse_spaces z = z" using nd by (rule collapse_spaces_id)
  have d: "dropWhile is_blank z = z" using ends by (cases z) auto
  have r: "rstrip_blanks z = z" using ends by (intro rstrip_blanks_id) blast
  show ?thesis unfolding clean_line_eq[OF assms(2)] c d r ..
qed

lemma rstrip_blanks_Nil_D: "rstrip_blanks u = [] \<Longrightarrow> x \<in> set u \<Longrightarrow> is_blank x"
proof -
  assume "rstrip_blanks u = []" and x: "x \<in> set u"
  then have "dropWhile is_blank (rev u) = []" by (simp add: rstrip_blanks_def)
  then have "\<forall>y \<in> set (rev u). is_blank y" by (simp only: dropWhile_eq_Nil_conv)
  with x show ?thesis by simp
qed

lemma clean_line_empty:
  assumes "CHR ''\<newline>'' \<notin> set u" and "clean_line u = []" and "x \<in> set u"
  shows "is_blank x"
proof (rule ccontr)
  assume nb: "\<not> is_blank x"
  let ?c = "collapse_spaces u"
  from assms(2) have r: "rstrip_blanks (dropWhile is_blank ?c) = []"
    by (simp only: clean_line_eq[OF assms(1)])
  have all: "is_blank y" if y: "y \<in> set ?c" for y
  proof (cases "y \<in> set (dropWhile is_blank ?c)")
    case True
    with r show ?thesis by (rule rstrip_blanks_Nil_D)
  next
    case False
    have "set ?c = set (takeWhile is_blank ?c) \<union> set (dropWhile is_blank ?c)"
      by (metis set_append takeWhile_dropWhile_id)
    with y False have "y \<in> set (takeWhile is_blank ?c)" by blast
    then show ?thesis by (rule set_takeWhileD[THEN conjunct2])
  qed
  from nb have "x \<noteq> CHR '' ''" by (auto simp: is_blank_def)
  with assms(3) have "x \<in> set (filter (\<lambda>c. c \<noteq> CHR '' '') u)" by simp
  then have "x \<in> set (filter (\<lambda>c. c \<noteq> CHR '' '') ?c)" by (simp only: collapse_spaces_keeps)
  then have "x \<in> set ?c" by simp
  with all nb show False by blast
qed

subsection \<open>Blank lines\<close>

definition bad_start :: "string list \<Rightarrow> bool" where
  "bad_start ls \<longleftrightarrow> (case ls of a # b # c # r \<Rightarrow> a = [] \<and> b = [] | _ \<Rightarrow> False)"

fun no_blank_run :: "string list \<Rightarrow> bool" where
  "no_blank_run [] = True"
| "no_blank_run (l # ls) = (\<not> bad_start ls \<and> no_blank_run ls)"

fun no_adjacent_headings :: "bool \<Rightarrow> string list \<Rightarrow> bool" where
  "no_adjacent_headings prev [] = True"
| "no_adjacent_headings prev (l # ls) =
     (\<not> (starts_with_hash l \<and> prev) \<and> no_adjacent_headings (starts_with_hash l) ls)"

lemma bad_start_simps:
  "bad_start [] = False" "bad_start [a] = False" "bad_start [a, b] = False"
  "bad_start (a # b # c # r) = (a = [] \<and> b = [])"
  by (simp_all add: bad_start_def)

lemma collapse_blank_lines_hd: "\<exists>r. collapse_blank_lines (a # ls) = a # r"
  by (induction "a # ls" arbitrary: ls rule: collapse_blank_lines.induct) auto

lemma collapse_blank_lines_subset: "set (collapse_blank_lines ls) \<subseteq> set ls"
  by (induction ls rule: collapse_blank_lines.induct) auto

lemma collapse_blank_lines_fix: "no_blank_run ls \<Longrightarrow> collapse_blank_lines ls = ls"
  by (induction ls rule: collapse_blank_lines.induct) (auto simp: bad_start_simps)

lemma bad_start_collapse: "bad_start (collapse_blank_lines ls) \<Longrightarrow> bad_start ls"
proof (induction ls rule: collapse_blank_lines.induct)
  case (1 l a b c ls)
  show ?case
  proof (cases "a = [] \<and> b = []")
    case True
    with "1.prems" have "bad_start (collapse_blank_lines (l # b # c # ls))" by simp
    with True "1.IH"(1) have "bad_start (l # b # c # ls)" by blast
    with True show ?thesis by (simp add: bad_start_simps)
  next
    case False
    from collapse_blank_lines_hd[of a "b # c # ls"] obtain r
      where r: "collapse_blank_lines (a # b # c # ls) = a # r" ..
    have e: "collapse_blank_lines (l # a # b # c # ls) = l # collapse_blank_lines (a # b # c # ls)"
      by (simp only: collapse_blank_lines.simps(1) if_not_P[OF False])
    from "1.prems" have "bad_start (l # a # r)" unfolding e r .
    then have "l = [] \<and> a = []" by (cases r) (simp_all add: bad_start_simps)
    then show ?thesis by (simp add: bad_start_simps)
  qed
qed simp_all

lemma no_blank_run_collapse: "no_blank_run (collapse_blank_lines ls)"
proof (induction ls rule: collapse_blank_lines.induct)
  case (1 l a b c ls)
  show ?case
  proof (cases "a = [] \<and> b = []")
    case True
    with "1.IH"(1) show ?thesis by simp
  next
    case False
    with "1.IH"(2) have nb: "no_blank_run (collapse_blank_lines (a # b # c # ls))" by blast
    have ns: "\<not> bad_start (collapse_blank_lines (a # b # c # ls))"
      using bad_start_collapse[of "a # b # c # ls"] False by (auto simp: bad_start_simps)
    have e: "collapse_blank_lines (l # a # b # c # ls) = l # collapse_blank_lines (a # b # c # ls)"
      by (simp only: collapse_blank_lines.simps(1) if_not_P[OF False])
    from nb ns show ?thesis unfolding e by simp
  qed
qed (simp_all add: bad_start_simps)

lemma bad_start_map:
  "\<forall>l \<in> set ls. f l = [] \<longleftrightarrow> l = [] \<Longrightarrow> bad_start (map f ls) = bad_start ls"
  by (auto simp: bad_start_def split: list.splits)

lemma no_blank_run_map:
  "\<forall>l \<in> set ls. f l = [] \<longleftrightarrow> l = [] \<Longrightarrow> no_blank_run (map f ls) = no_blank_run ls"
proof (induction ls)
  case Nil
  show ?case by simp
next
  case (Cons l ls)
  then have "\<forall>l \<in> set ls. f l = [] \<longleftrightarrow> l = []" by simp
  with Cons.IH bad_start_map[of ls f] show ?case by simp
qed

subsection \<open>The heading loop\<close>

lemma starts_with_hash_Nil: "\<not> starts_with_hash []"
  by (simp add: starts_with_hash_def)

lemma clean_loop_lines: "set (clean_loop b ls) \<subseteq> insert [] (set ls)"
  by (induction ls arbitrary: b) (auto simp: Let_def)

lemma clean_loop_not_Nil: "ls \<noteq> [] \<Longrightarrow> clean_loop b ls \<noteq> []"
  by (cases ls) (simp_all add: Let_def)

lemma clean_loop_no_adjacent: "no_adjacent_headings b (clean_loop b ls)"
  by (induction ls arbitrary: b) (simp_all add: Let_def starts_with_hash_Nil)

lemma clean_loop_fix: "no_adjacent_headings b ls \<Longrightarrow> clean_loop b ls = ls"
  by (induction ls arbitrary: b) (auto simp: Let_def)

lemma bad_start_clean_loop: "bad_start (clean_loop b ls) \<Longrightarrow> bad_start ls"
proof (cases ls)
  case Nil
  assume "bad_start (clean_loop b ls)"
  with Nil show ?thesis by simp
next
  case (Cons m ms)
  assume bad: "bad_start (clean_loop b ls)"
  show ?thesis
  proof (cases "starts_with_hash m \<and> b")
    case True
    then have "m \<noteq> []" using starts_with_hash_Nil by blast
    with bad Cons True show ?thesis by (auto simp: Let_def bad_start_def split: list.splits)
  next
    case False
    with bad Cons have b1: "bad_start (m # clean_loop (starts_with_hash m) ms)"
      by (auto simp: Let_def)
    then have m: "m = []" by (auto simp: bad_start_def split: list.splits)
    with b1 have b2: "bad_start ([] # clean_loop False ms)" by (simp add: starts_with_hash_Nil)
    show ?thesis
    proof (cases ms)
      case Nil
      with b2 show ?thesis by (simp add: bad_start_simps)
    next
      case (Cons n ns)
      with b2 have b3: "bad_start ([] # n # clean_loop (starts_with_hash n) ns)"
        by (simp add: Let_def)
      then have n: "n = []" by (auto simp: bad_start_def split: list.splits)
      from b3 have "clean_loop (starts_with_hash n) ns \<noteq> []"
        by (auto simp: bad_start_def split: list.splits)
      then have "ns \<noteq> []" by auto
      then obtain k ks where "ns = k # ks" by (cases ns) auto
      with m n Cons \<open>ls = m # ms\<close> show ?thesis by (simp add: bad_start_simps)
    qed
  qed
qed

lemma no_blank_run_clean_loop: "no_blank_run ls \<Longrightarrow> no_blank_run (clean_loop b ls)"
proof (induction ls arbitrary: b)
  case Nil
  show ?case by simp
next
  case (Cons l ls)
  from Cons.prems have nb: "\<not> bad_start ls" and run: "no_blank_run ls" by simp_all
  let ?rest = "clean_loop (starts_with_hash l) ls"
  from nb bad_start_clean_loop[of "starts_with_hash l" ls] have nb': "\<not> bad_start ?rest" by blast
  from Cons.IH[OF run] have run': "no_blank_run ?rest" .
  from nb' run' have one: "no_blank_run (l # ?rest)" by simp
  show ?case
  proof (cases "starts_with_hash l \<and> b")
    case True
    then have "l \<noteq> []" using starts_with_hash_Nil by blast
    then have "\<not> bad_start (l # ?rest)" by (auto simp: bad_start_def split: list.splits)
    with one True show ?thesis by (simp add: Let_def)
  next
    case False
    with one show ?thesis by (auto simp: Let_def)
  qed
qed

subsection \<open>\<open>clean_markdown\<close> on the lines of its input\<close>

lemma clean_markdown_lines:
  assumes ne: "ls \<noteq> []" and nl: "\<forall>l \<in> set ls. CHR ''\<newline>'' \<notin> set l"
  shows "clean_markdown (str_join CHR ''\<newline>'' ls)
     = str_join CHR ''\<newline>'' (clean_loop False (map clean_line (collapse_blank_lines ls)))"
proof -
  let ?nl = "CHR ''\<newline>''"
  let ?A = "collapse_blank_lines ls"
  let ?B = "map collapse_spaces ?A"
  let ?C = "map strip_leading ?B"
  let ?D = "map strip_trailing ?C"
  have neA: "?A \<noteq> []" using ne by (simp add: collapse_blank_lines_Nil)
  have nlA: "\<forall>l \<in> set ?A. ?nl \<notin> set l" using nl collapse_blank_lines_subset[of ls] by blast
  have nlB: "\<forall>l \<in> set ?B. ?nl \<notin> set l" using nlA by (simp add: collapse_spaces_no_newline)
  have nlC: "\<forall>l \<in> set ?C. ?nl \<notin> set l"
    using nlB by (simp add: strip_leading_def re_sub_no_newline)
  have nlD: "\<forall>l \<in> set ?D. ?nl \<notin> set l"
    using nlC by (simp add: strip_trailing_def re_sub_no_newline)
  have c1: "re_sub (re_run (\<lambda>c. c = ?nl) 3) ''\<newline>\<newline>'' (str_join ?nl ls) = str_join ?nl ?A"
    using collapse_newlines_lines[OF nl] by (simp only: collapse_newlines_def)
  have c2: "re_sub (re_run (\<lambda>c. c = CHR '' '') 2) '' '' (str_join ?nl ?A) = str_join ?nl ?B"
    using re_sub_join[OF line_local_spaces _ nlA, of "'' ''"] neA
    by (simp add: collapse_spaces_def[abs_def])
  have c3: "re_sub re_leading_blanks [] (str_join ?nl ?B) = str_join ?nl ?C"
    using re_sub_join[OF line_local_leading _ nlB, of "[]"] neA
    by (simp add: strip_leading_def[abs_def])
  have c4: "re_sub re_trailing_blanks [] (str_join ?nl ?C) = str_join ?nl ?D"
    using re_sub_join[OF line_local_trailing _ nlC, of "[]"] neA
    by (simp add: strip_trailing_def[abs_def])
  have D: "?D = map clean_line ?A" by (simp add: clean_line_def)
  have neD: "?D \<noteq> []" using neA by simp
  have sp: "str_split ?nl (str_join ?nl ?D) = ?D" by (rule str_split_join[OF neD nlD])
  show ?thesis
    unfolding clean_markdown_def Let_def c1 c2 c3 c4 sp by (simp only: D)
qed

text \<open>
  A second pass of \<open>clean_markdown\<close> changes nothing when no line of the input is a
  non-empty run of spaces and tabs: the run of newlines that a first pass can leave
  comes from such lines only.
\<close>

lemma clean_markdown_idem:
  assumes "\<forall>line \<in> set (str_split CHR ''\<newline>'' content).
             line \<noteq> [] \<longrightarrow> (\<exists>c \<in> set line. \<not> is_blank c)"
  shows "clean_markdown (clean_markdown content) = clean_markdown content"
proof -
  let ?nl = "CHR ''\<newline>''"
  let ?ls = "str_split ?nl content"
  let ?A = "collapse_blank_lines ?ls"
  let ?L = "map clean_line ?A"
  let ?L' = "clean_loop False ?L"
  have ne: "?ls \<noteq> []" by (rule str_split_not_Nil)
  have nl: "\<forall>l \<in> set ?ls. ?nl \<notin> set l" using str_split_no_sep by blast
  have first: "clean_markdown content = str_join ?nl ?L'"
    using clean_markdown_lines[OF ne nl] by (simp only: str_join_split)
  have sub: "set ?A \<subseteq> set ?ls" by (rule collapse_blank_lines_subset)
  have nlA: "\<forall>l \<in> set ?A. ?nl \<notin> set l" using nl sub by blast
  have neL: "?L \<noteq> []" using ne by (simp add: collapse_blank_lines_Nil)
  have normL: "\<forall>l \<in> set ?L. normal_line l \<and> ?nl \<notin> set l"
    using nlA by (simp add: clean_line_normal clean_line_no_newline)
  have normL': "\<forall>l \<in> set ?L'. normal_line l \<and> ?nl \<notin> set l"
  proof
    fix l assume "l \<in> set ?L'"
    with clean_loop_lines[of False ?L] have "l = [] \<or> l \<in> set ?L" by blast
    with normL show "normal_line l \<and> ?nl \<notin> set l" by (auto simp: normal_line_def)
  qed
  have neL': "?L' \<noteq> []" using neL by (rule clean_loop_not_Nil)
  have nlL': "\<forall>l \<in> set ?L'. ?nl \<notin> set l" using normL' by blast
  have empty: "\<forall>l \<in> set ?A. clean_line l = [] \<longleftrightarrow> l = []"
  proof (intro ballI iffI)
    fix l assume l: "l \<in> set ?A" and e: "clean_line l = []"
    from l sub have ls: "l \<in> set ?ls" by blast
    from l nlA have "?nl \<notin> set l" by blast
    from clean_line_empty[OF this e] have "\<forall>c \<in> set l. is_blank c" by blast
    with assms ls show "l = []" by blast
  next
    fix l :: string assume "l = []"
    then show "clean_line l = []" by (simp add: clean_line_Nil)
  qed
  have "no_blank_run ?L"
    unfolding no_blank_run_map[OF empty] by (rule no_blank_run_collapse)
  then have "no_blank_run ?L'" by (rule no_blank_run_clean_loop)
  then have s1: "collapse_blank_lines ?L' = ?L'" by (rule collapse_blank_lines_fix)
  have s2: "map clean_line ?L' = ?L'"
    using normL' by (intro map_idI clean_line_id) blast+
  have s3: "clean_loop False ?L' = ?L'"
    by (rule clean_loop_fix) (rule clean_loop_no_adjacent)
  have "clean_markdown (str_join ?nl ?L') = str_join ?nl ?L'"
    unfolding clean_markdown_lines[OF neL' nlL'] s1 s2 s3 ..
  then show ?thesis unfolding first .
qed

subsection \<open>Idempotence\<close>

text \<open>
  On the input of the repository's \<open>test_clean_markdown\<close> the result holds no run of
  three newlines, and a second pass changes nothing.
\<close>

lemma clean_markdown_example:
  "clean_markdown ''Title\<newline>\<newline>\<newline>\<newline>Content   with    spaces\<newline>\<newline>\<newline>\<newline>End''
     = ''Title\<newline>\<newline>Content with spaces\<newline>\<newline>End''"
  "clean_markdown ''Title\<newline>\<newline>Content with spaces\<newline>\<newline>End''
     = ''Title\<newline>\<newline>Content with spaces\<newline>\<newline>End''"
  by code_simp+

lemma format_lists_example:
  "format_lists ''  - Item 1\<newline>    * Nested\<newline>1. Numbered''
     = ''  - Item 1\<newline>    - Nested\<newline>1. Numbered''"
  by code_simp

text \<open>
  Claim C4. \<open>format_lists\<close> is idempotent on every string. \<open>clean_markdown\<close> is not:
  it collapses the runs of newlines before it strips the lines of blanks, so on
  \<open>a\n \n \nb\<close> it returns \<open>a\n\n\nb\<close>, with the run of three newlines that its
  first substitution is there to remove, and only a second pass gives \<open>a\n\nb\<close>.
\<close>

theorem clean_markdown_not_idempotent:
  "clean_markdown ''a\<newline> \<newline> \<newline>b'' = ''a\<newline>\<newline>\<newline>b''
   \<and> clean_markdown (clean_markdown ''a\<newline> \<newline> \<newline>b'') = ''a\<newline>\<newline>b''
   \<and> clean_markdown (clean_markdown ''a\<newline> \<newline> \<newline>b'')
       \<noteq> clean_markdown ''a\<newline> \<newline> \<newline>b''
   \<and> (\<forall>content. format_lists (format_lists content) = format_lists content)"
proof -
  have a: "clean_markdown ''a\<newline> \<newline> \<newline>b'' = ''a\<newline>\<newline>\<newline>b''"
    by (simp add: clean_markdown_def re_sub_def re_run_def span_len_def re_leading_blanks_def
        re_trailing_blanks_def is_blank_def starts_with_hash_def Let_def)
  have b: "clean_markdown ''a\<newline>\<newline>\<newline>b'' = ''a\<newline>\<newline>b''"
    by (simp add: clean_markdown_def re_sub_def re_run_def span_len_def re_leading_blanks_def
        re_trailing_blanks_def is_blank_def starts_with_hash_def Let_def)
  from a b format_lists_idem show ?thesis by simp
qed

section \<open>PDFValidator (converters/pdf\_converter.py)\<close>

text \<open>
  What \<open>validate_pdf\<close> asks of its environment. Each call returns or raises; the
  function tells \<open>pypdf.errors.PdfReadError\<close> from every other exception, of which
  it keeps the message (\<open>str(e)\<close>).
\<close>

datatype exn = PdfReadError | OtherError string

datatype 'a outcome = Raise exn | Return 'a

record pdf_reader =
  is_encrypted :: bool
  num_pages :: "nat outcome"

record file_system =
  path_exists :: "string \<Rightarrow> bool outcome"
  st_size :: "string \<Rightarrow> nat outcome"
  read_pdf :: "string \<Rightarrow> pdf_reader outcome"

text \<open>
  \<open>Path(p).suffix\<close> as \<open>pathlib\<close> defines it for POSIX paths: the name is the
  last component that is neither empty nor \<open>.\<close>; the suffix starts at the last dot of
  the name, unless that dot is the first or the last character of the name.
\<close>

definition path_name :: "string \<Rightarrow> string" where
  "path_name p =
     (case filter (\<lambda>part. part \<noteq> [] \<and> part \<noteq> ''.'') (str_split CHR ''/'' p) of
        [] \<Rightarrow> []
      | parts \<Rightarrow> last parts)"

definition path_suffix :: "string \<Rightarrow> string" where
  "path_suffix p =
     (let name = path_name p;
          after_dot = length (takeWhile (\<lambda>c. c \<noteq> CHR ''.'') (rev name));
          i = length name - 1 - after_dot
      in if CHR ''.'' \<in> set name \<and> 0 < i \<and> i < length name - 1 then drop i name else [])"

fun on_exception :: "exn \<Rightarrow> bool \<times> string option" where
  "on_exception PdfReadError = (False, Some ''PDF is corrupted or unreadable'')"
| "on_exception (OtherError msg) = (False, Some (''Validation error: '' @ msg))"

definition validate_pdf :: "file_system \<Rightarrow> string \<Rightarrow> bool \<times> string option" where
  "validate_pdf fs file_path =
     (case path_exists fs file_path of
        Raise e \<Rightarrow> on_exception e
      | Return found \<Rightarrow>
          if \<not> found then (False, Some ''File does not exist'')
          else if str_lower (path_suffix file_path) \<noteq> ''.pdf''
          then (False, Some ''File is not a PDF'')
          else (case st_size fs file_path of
                  Raise e \<Rightarrow> on_exception e
                | Return st_size_bytes \<Rightarrow>
                    if st_size_bytes = 0 then (False, Some ''PDF file is empty'')
                    else if 100 * 1024 * 1024 < st_size_bytes
                    then (False, Some ''PDF file is too large (>100MB)'')
                    else (case read_pdf fs file_path of
                            Raise e \<Rightarrow> on_exception e
                          | Return reader \<Rightarrow>
                              if is_encrypted reader then (False, Some ''PDF is encrypted'')
                              else (case num_pages reader of
                                      Raise e \<Rightarrow> on_exception e
                                    | Return n \<Rightarrow>
                                        if n = 0 then (False, Some ''PDF has no pages'')
                                        else (True, None)))))"

text \<open>
  The specification's reading of the validator: the facts about the file, the list of
  checks in the specified order, each with its reason, and the first failed check.
\<close>

record pdf_facts =
  file_exists :: bool
  file_size :: nat
  parseable :: bool
  encrypted :: bool
  page_count :: nat

definition spec_checks :: "pdf_facts \<Rightarrow> string \<Rightarrow> (bool \<times> string) list" where
  "spec_checks f file_path =
     [(file_exists f, ''File does not exist''),
      (str_lower (path_suffix file_path) = ''.pdf'', ''File is not a PDF''),
      (0 < file_size f, ''PDF file is empty''),
      (file_size f \<le> 100 * 1024 * 1024, ''PDF file is too large (>100MB)''),
      (parseable f, ''PDF is corrupted or unreadable''),
      (\<not> encrypted f, ''PDF is encrypted''),
      (0 < page_count f, ''PDF has no pages'')]"

fun first_failure :: "(bool \<times> string) list \<Rightarrow> string option" where
  "first_failure [] = None"
| "first_failure ((ok, reason) # checks) = (if ok then first_failure checks else Some reason)"

definition spec_validate :: "pdf_facts \<Rightarrow> string \<Rightarrow> bool \<times> string option" where
  "spec_validate f file_path =
     (case first_failure (spec_checks f file_path) of
        None \<Rightarrow> (True, None)
      | Some reason \<Rightarrow> (False, Some reason))"

text \<open>A file system in which every path has the given facts and no call raises
  anything but the parse error of an unparseable file.\<close>

definition fs_with :: "pdf_facts \<Rightarrow> file_system" where
  "fs_with f =
     \<lparr>path_exists = (\<lambda>p. Return (file_exists f)),
      st_size = (\<lambda>p. Return (file_size f)),
      read_pdf = (\<lambda>p. if parseable f
                       then Return \<lparr>is_encrypted = encrypted f, num_pages = Return (page_count f)\<rparr>
                       else Raise PdfReadError)\<rparr>"

lemma validate_pdf_refines: "validate_pdf (fs_with f) file_path = spec_validate f file_path"
  by (simp add: validate_pdf_def fs_with_def spec_validate_def spec_checks_def)

lemma suffix_examples:
  "path_suffix ''/tmp/missing.pdf'' = ''.pdf''"
  "path_suffix ''empty.pdf'' = ''.pdf''"
  "path_suffix ''/tmp/archive.tar.gz'' = ''.gz''"
  "path_suffix ''/tmp/.pdf'' = []"
  "path_suffix ''/tmp/notes'' = []"
  by (simp_all add: path_suffix_def path_name_def Let_def)

lemma lower_pdf: "str_lower ''.pdf'' = ''.pdf''" "str_lower ''.PDF'' = ''.pdf''"
  by (simp_all add: str_lower_def lower_char_def upper_chars_def lower_chars_def)

text \<open>
  Claim C5. \<open>validate_pdf\<close> returns what the specified list of checks returns:
  the reason of the first check that fails, in the order existence, extension, empty,
  too large, parseable, encrypted, pages, and success when none fails. Whatever else
  holds of the file system, a missing \<open>/tmp/missing.pdf\<close> gives
  \<open>File does not exist\<close> and an existing \<open>empty.pdf\<close> of size 0 gives
  \<open>PDF file is empty\<close>.
\<close>

theorem validate_pdf_order:
  "validate_pdf (fs_with f) file_path = spec_validate f file_path
   \<and> (path_exists fs ''/tmp/missing.pdf'' = Return False \<longrightarrow>
        validate_pdf fs ''/tmp/missing.pdf'' = (False, Some ''File does not exist''))
   \<and> (path_exists fs ''empty.pdf'' = Return True \<and> st_size fs ''empty.pdf'' = Return 0 \<longrightarrow>
        validate_pdf fs ''empty.pdf'' = (False, Some ''PDF file is empty''))"
proof (intro conjI impI)
  show "validate_pdf (fs_with f) file_path = spec_validate f file_path"
    by (rule validate_pdf_refines)
  show "validate_pdf fs ''/tmp/missing.pdf'' = (False, Some ''File does not exist'')"
    if "path_exists fs ''/tmp/missing.pdf'' = Return False"
    using that by (simp add: validate_pdf_def)
  show "validate_pdf fs ''empty.pdf'' = (False, Some ''PDF file is empty'')"
    if "path_exists fs ''empty.pdf'' = Return True \<and> st_size fs ''empty.pdf'' = Return 0"
    using that by (simp add: validate_pdf_def suffix_examples lower_pdf)
qed

definition empty_pdf_facts :: pdf_facts where
  "empty_pdf_facts = \<lparr>file_exists = True, file_size = 0, parseable = False, encrypted = True,
                       page_count = 0\<rparr>"

theorem validate_pdf_order_witness:
  "validate_pdf (fs_with (empty_pdf_facts\<lparr>file_exists := False\<rparr>)) ''/tmp/missing.pdf''
     = (False, Some ''File does not exist'')
   \<and> validate_pdf (fs_with empty_pdf_facts) ''empty.pdf'' = (False, Some ''PDF file is empty'')
   \<and> validate_pdf (fs_with (empty_pdf_facts\<lparr>file_size := 1024\<rparr>)) ''empty.pdf''
     = (False, Some ''PDF is corrupted or unreadable'')
   \<and> validate_pdf (fs_with (empty_pdf_facts\<lparr>file_size := 1024, parseable := True\<rparr>)) ''empty.pdf''
     = (False, Some ''PDF is encrypted'')"
proof -
  have a: "path_exists (fs_with (empty_pdf_facts\<lparr>file_exists := False\<rparr>)) ''/tmp/missing.pdf''
             = Return False"
    and b: "path_exists (fs_with empty_pdf_facts) ''empty.pdf'' = Return True
            \<and> st_size (fs_with empty_pdf_facts) ''empty.pdf'' = Return 0"
    by (simp_all add: fs_with_def empty_pdf_facts_def)
  have c: "spec_validate (empty_pdf_facts\<lparr>file_size := 1024\<rparr>) ''empty.pdf''
             = (False, Some ''PDF is corrupted or unreadable'')"
    and d: "spec_validate (empty_pdf_facts\<lparr>file_size := 1024, parseable := True\<rparr>) ''empty.pdf''
             = (False, Some ''PDF is encrypted'')"
    by (simp_all add: spec_validate_def spec_checks_def empty_pdf_facts_def suffix_examples lower_pdf)
  from a b c d
    validate_pdf_order[where fs = "fs_with (empty_pdf_facts\<lparr>file_exists := False\<rparr>)"
      and f = "empty_pdf_facts\<lparr>file_size := 1024\<rparr>" and file_path = "''empty.pdf''"]
    validate_pdf_order[where fs = "fs_with empty_pdf_facts"
      and f = "empty_pdf_facts\<lparr>file_size := 1024, parseable := True\<rparr>" and file_path = "''empty.pdf''"]
  show ?thesis by simp
qed

section \<open>The conversion endpoint (api.py)\<close>

text \<open>
  \<open>POST /api/documents/convert\<close>. A handler either returns a response body or lets
  an \<open>HTTPException\<close> reach the framework, which answers with that status code. The
  body of the handler's \<open>try\<close> block returns a response or raises; \<open>HTTPException\<close>
  is a subclass of \<open>Exception\<close>. The environment gives the working directory, which
  paths exist, what \<open>check_pdf_encryption\<close> and \<open>convert_pdf_to_markdown\<close> return
  (neither raises: both catch every exception themselves), and \<open>str(e)\<close> of an
  exception. The status notifications sent on the way are those of the hub above and are
  left out here; the joined path is not normalised.
\<close>

record ConversionRequest =
  req_documentId :: string
  req_filePath :: string

record ConversionResponse =
  resp_documentId :: string
  resp_markdown :: string
  resp_images :: "string list"
  resp_metadata :: "(string \<times> string) list"
  resp_status :: string
  resp_errors :: "string list"

datatype api_exn = HTTPException nat string | OtherException string

datatype http_result = Response ConversionResponse | HTTPError nat string

record api_env =
  cwd :: string
  env_exists :: "string \<Rightarrow> bool"
  check_pdf_encryption :: "string \<Rightarrow> bool"
  convert_pdf_to_markdown :: "string \<Rightarrow> string \<Rightarrow> ConversionResponse"
  exn_str :: "api_exn \<Rightarrow> string"

definition failed_response :: "string \<Rightarrow> string list \<Rightarrow> ConversionResponse" where
  "failed_response doc errs =
     \<lparr>resp_documentId = doc, resp_markdown = [], resp_images = [], resp_metadata = [], resp_status = ''failed'',
      resp_errors = errs\<rparr>"

definition convert_pdf_try :: "api_env \<Rightarrow> ConversionRequest \<Rightarrow> api_exn + ConversionResponse" where
  "convert_pdf_try env request =
     (let file_path = (if take 1 (req_filePath request) = ''/'' then req_filePath request
                       else cwd env @ ''/'' @ req_filePath request)
      in if \<not> env_exists env file_path
         then Inl (HTTPException 404 (''File not found: '' @ file_path))
         else if check_pdf_encryption env file_path
         then Inr (failed_response (req_documentId request)
                [''PDF_ENCRYPTED: PDF is password protected. Please unlock before uploading.''])
         else Inr (convert_pdf_to_markdown env file_path (req_documentId request)))"

definition convert_pdf :: "api_env \<Rightarrow> ConversionRequest \<Rightarrow> http_result" where
  "convert_pdf env request =
     (case convert_pdf_try env request of
        Inr response \<Rightarrow> Response response
      | Inl e \<Rightarrow> Response (failed_response (req_documentId request) [exn_str env e]))"

text \<open>
  An environment in which no file exists, and \<open>str(e)\<close> of an \<open>HTTPException\<close> is
  its detail.
\<close>

definition missing_file_env :: api_env where
  "missing_file_env =
     \<lparr>cwd = ''/srv'', env_exists = (\<lambda>p. False), check_pdf_encryption = (\<lambda>p. False),
      convert_pdf_to_markdown = (\<lambda>p doc. failed_response doc [''PDF file not found: '' @ p]),
      exn_str = (\<lambda>e. case e of HTTPException code detail \<Rightarrow> detail | OtherException msg \<Rightarrow> msg)\<rparr>"

text \<open>
  Claim C6. For a path that does not exist, the \<open>HTTPException\<close> with status 404
  that the handler raises is caught by its own \<open>except Exception\<close>: the answer is a
  response body with status \<open>failed\<close>, not an HTTP error, and no request at all is
  answered with an HTTP error. For an encrypted PDF the answer is a failed body, as the
  claim says.
\<close>

theorem convert_pdf_missing_file:
  "convert_pdf missing_file_env \<lparr>req_documentId = ''doc-1'', req_filePath = ''/tmp/missing.pdf''\<rparr>
     = Response (failed_response ''doc-1'' [''File not found: /tmp/missing.pdf''])
   \<and> (\<forall>env request code detail. convert_pdf env request \<noteq> HTTPError code detail)
   \<and> convert_pdf (missing_file_env\<lparr>env_exists := (\<lambda>p. True), check_pdf_encryption := (\<lambda>p. True)\<rparr>)
         \<lparr>req_documentId = ''doc-1'', req_filePath = ''/tmp/locked.pdf''\<rparr>
       = Response (failed_response ''doc-1''
           [''PDF_ENCRYPTED: PDF is password protected. Please unlock before uploading.''])"
  by (auto simp: convert_pdf_def convert_pdf_try_def missing_file_env_def Let_def
      split: sum.splits)

section \<open>ImageExtractionPipeline (converters/image\_handler.py, docling\_service.py)\<close>

text \<open>
  A \<open>pathlib\<close> path on POSIX: its root (\<open>/\<close>, \<open>//\<close> for exactly two leading
  slashes, or none) and its components; empty components and \<open>.\<close> are dropped when a
  string is parsed. \<open>p / s\<close> is \<open>s\<close> alone when \<open>s\<close> has a root, and otherwise \<open>p\<close>
  with the components of \<open>s\<close> appended.
\<close>

record pure_path =
  path_root :: string
  path_parts :: "string list"

definition Path :: "string \<Rightarrow> pure_path" where
  "Path s =
     \<lparr>path_root = (if take 1 s \<noteq> ''/'' then []
                   else if take 2 s = ''//'' \<and> take 3 s \<noteq> ''///'' then ''//''
                   else ''/''),
      path_parts = filter (\<lambda>part. part \<noteq> [] \<and> part \<noteq> ''.'') (str_split CHR ''/'' s)\<rparr>"

definition path_div :: "pure_path \<Rightarrow> string \<Rightarrow> pure_path" where
  "path_div p s =
     (let q = Path s
      in if path_root q \<noteq> [] then q
         else \<lparr>path_root = path_root p, path_parts = path_parts p @ path_parts q\<rparr>)"

definition path_str :: "pure_path \<Rightarrow> string" where
  "path_str p =
     (if path_root p = [] \<and> path_parts p = [] then ''.''
      else path_root p @ str_join CHR ''/'' (path_parts p))"

definition path_parent :: "pure_path \<Rightarrow> pure_path" where
  "path_parent p = \<lparr>path_root = path_root p, path_parts = butlast (path_parts p)\<rparr>"

definition path_final :: "pure_path \<Rightarrow> string" where
  "path_final p = (if path_parts p = [] then [] else last (path_parts p))"

text \<open>
  \<open>hashlib.md5(data).hexdigest()\<close>: the digest is a parameter, a number of 128 bits;
  the hex digest is its 32 hexadecimal digits in lower case.
\<close>

record image_env =
  md5 :: "string \<Rightarrow> nat"
  image_ok :: "string \<Rightarrow> string \<Rightarrow> bool"

fun hex_digits :: "nat \<Rightarrow> nat \<Rightarrow> string" where
  "hex_digits 0 n = []"
| "hex_digits (Suc k) n = hex_digits k (n div 16) @ [''0123456789abcdef'' ! (n mod 16)]"

definition md5_hexdigest :: "image_env \<Rightarrow> string \<Rightarrow> string" where
  "md5_hexdigest env data = hex_digits 32 (md5 env data)"

text \<open>\<open>str(i)\<close> of an integer, and \<open>s.encode()\<close> (UTF-8) of a string.\<close>

definition str_int :: "int \<Rightarrow> string" where
  "str_int i = (if i < 0 then CHR ''-'' # str_nat (nat (- i)) else str_nat (nat i))"

definition str_encode :: "string \<Rightarrow> string" where
  "str_encode s =
     concat (map (\<lambda>c. if is_ascii c then [c]
                       else [char_of (192 + (of_char c :: nat) div 64),
                             char_of (128 + (of_char c :: nat) mod 64)]) s)"

text \<open>
  \<open>save_image\<close>: the file written, if any, and the returned reference. Opening and
  saving the image succeeds or raises (\<open>image_ok\<close>); an exception is caught and logged,
  and nothing is returned for the image.
\<close>

definition save_image ::
  "image_env \<Rightarrow> pure_path \<Rightarrow> string \<Rightarrow> string \<Rightarrow> int \<Rightarrow> string
     \<Rightarrow> pure_path option \<times> string option" where
  "save_image env output_dir image_data document_id image_index fmt =
     (let image_hash = take 8 (md5_hexdigest env image_data);
          filename = document_id @ ''_img_'' @ str_int image_index @ ''_'' @ image_hash
                       @ ''.'' @ str_lower fmt;
          file_path = path_div output_dir filename
      in if image_ok env image_data fmt
         then (Some file_path, Some (''/uploads/images/'' @ filename))
         else (None, None))"

text \<open>
  \<open>_extract_and_save_images\<close> of the service: a picture of the converted document
  has a string form (\<open>str(image_data)\<close>, whose encoding is what is hashed) and may have
  a \<open>pil_image\<close>, whose saving succeeds or raises. The result is the list of files
  written (\<open>str(image_path)\<close>) and references returned, in order.
\<close>

record picture =
  picture_str :: string
  pil_image :: "bool option"

fun extract_loop ::
  "image_env \<Rightarrow> pure_path \<Rightarrow> string \<Rightarrow> nat \<Rightarrow> picture list \<Rightarrow> (string \<times> string) list" where
  "extract_loop env image_dir document_id idx [] = []"
| "extract_loop env image_dir document_id idx (image_data # images) =
     (let image_hash = take 8 (md5_hexdigest env (str_encode (picture_str image_data)));
          image_filename = document_id @ ''_img_'' @ str_nat (idx + 1) @ ''_'' @ image_hash @ ''.png'';
          image_path = path_div image_dir image_filename;
          rest = extract_loop env image_dir document_id (idx + 1) images
      in if pil_image image_data = Some True
         then (path_str image_path, ''/uploads/images/'' @ image_filename) # rest
         else rest)"

definition extract_and_save_images ::
  "image_env \<Rightarrow> pure_path \<Rightarrow> picture list \<Rightarrow> string \<Rightarrow> (string \<times> string) list" where
  "extract_and_save_images env image_dir images document_id =
     extract_loop env image_dir document_id 0 images"

text \<open>
  An environment for the examples: the MD5 digests of the eight bytes of the PNG
  signature and of \<open>picture\<close>.
\<close>

definition png_signature :: string where
  "png_signature = [CHR 0x89, CHR ''P'', CHR ''N'', CHR ''G'', CHR 0x0D, CHR 0x0A, CHR 0x1A, CHR 0x0A]"

definition image_env_example :: image_env where
  "image_env_example =
     \<lparr>md5 = (\<lambda>data. if data = png_signature then 0xe9dd2797018cad79186e03e8c5aec8dc
                    else if data = ''picture'' then 0x5456fc54c74a297ce994998c2873b370
                    else 0xd41d8cd98f00b204e9800998ecf8427e),
      image_ok = (\<lambda>data fmt. True)\<rparr>"

section \<open>Properties of the image pipeline\<close>

lemma str_nat_digits: "c \<in> set (str_nat n) \<Longrightarrow> c \<in> set ''0123456789''"
proof (induction n arbitrary: c rule: str_nat.induct)
  case (1 n)
  have d: "''0123456789'' ! k \<in> set ''0123456789''" if "k < 10" for k :: nat
    using that by (intro nth_mem) simp
  show ?case
  proof (cases "n < 10")
    case True
    with "1.prems" have "c = ''0123456789'' ! n" by (simp add: str_nat.simps[of n])
    with d[OF True] show ?thesis by (simp only:)
  next
    case False
    with "1.prems" have "c \<in> set (str_nat (n div 10)) \<or> c = ''0123456789'' ! (n mod 10)"
      by (auto simp: str_nat.simps[of n])
    then show ?thesis
    proof
      assume "c \<in> set (str_nat (n div 10))"
      with False show ?thesis by (rule "1.IH")
    next
      assume "c = ''0123456789'' ! (n mod 10)"
      with d[of "n mod 10"] show ?thesis by simp
    qed
  qed
qed

lemma str_int_no_slash: "CHR ''/'' \<notin> set (str_int i)"
  using str_nat_digits[of "CHR ''/''"] by (auto simp: str_int_def)

lemma hex_digits_length: "length (hex_digits k n) = k"
  by (induction k arbitrary: n) simp_all

lemma hex_digits_chars: "c \<in> set (hex_digits k n) \<Longrightarrow> c \<in> set ''0123456789abcdef''"
proof (induction k arbitrary: n)
  case 0
  then show ?case by simp
next
  case (Suc k)
  have d: "''0123456789abcdef'' ! (n mod 16) \<in> set ''0123456789abcdef''"
    by (intro nth_mem) simp
  from Suc.prems have "c \<in> set (hex_digits k (n div 16)) \<or> c = ''0123456789abcdef'' ! (n mod 16)"
    by auto
  then show ?case
  proof
    assume "c \<in> set (hex_digits k (n div 16))"
    then show ?thesis by (rule Suc.IH)
  next
    assume "c = ''0123456789abcdef'' ! (n mod 16)"
    with d show ?thesis by (simp only:)
  qed
qed

lemma image_hash_hex:
  "length (take 8 (md5_hexdigest env data)) = 8"
  "set (take 8 (md5_hexdigest env data)) \<subseteq> set ''0123456789abcdef''"
proof -
  show "length (take 8 (md5_hexdigest env data)) = 8"
    by (simp add: md5_hexdigest_def hex_digits_length)
  show "set (take 8 (md5_hexdigest env data)) \<subseteq> set ''0123456789abcdef''"
  proof
    fix c assume "c \<in> set (take 8 (md5_hexdigest env data))"
    then have "c \<in> set (hex_digits 32 (md5 env data))"
      unfolding md5_hexdigest_def by (rule in_set_takeD)
    then show "c \<in> set ''0123456789abcdef''" by (rule hex_digits_chars)
  qed
qed

lemma image_hash_no_slash: "CHR ''/'' \<notin> set (take 8 (md5_hexdigest env data))"
  using image_hash_hex(2)[of env data] by auto

lemma lower_char_slash: "lower_char c = CHR ''/'' \<longleftrightarrow> c = CHR ''/''"
proof (cases "map_of (zip upper_chars lower_chars) c")
  case None
  then show ?thesis by (simp add: lower_char_def)
next
  case (Some l)
  then have in_zip: "(c, l) \<in> set (zip upper_chars lower_chars)" by (rule map_of_SomeD)
  then have "l \<in> set lower_chars" by (rule set_zip_rightD)
  then have l: "l \<noteq> CHR ''/''" by (auto simp: lower_chars_def)
  from in_zip have "c \<in> set upper_chars" by (rule set_zip_leftD)
  then have c: "c \<noteq> CHR ''/''" by (auto simp: upper_chars_def)
  from Some l c show ?thesis by (simp add: lower_char_def)
qed

lemma str_lower_slash: "CHR ''/'' \<in> set (str_lower s) \<longleftrightarrow> CHR ''/'' \<in> set s"
proof -
  have "CHR ''/'' \<in> lower_char ` set s \<longleftrightarrow> CHR ''/'' \<in> set s"
    using lower_char_slash by (metis imageE image_eqI)
  then show ?thesis by (simp add: str_lower_def)
qed

text \<open>A name of one component, joined to a directory.\<close>

lemma path_div_name:
  assumes "CHR ''/'' \<notin> set name" and "name \<noteq> []" and "name \<noteq> ''.''"
  shows "path_div dir name = \<lparr>path_root = path_root dir, path_parts = path_parts dir @ [name]\<rparr>"
proof -
  from assms(1,2) have "take 1 name \<noteq> ''/''" by (cases name) auto
  moreover from assms(1) have "str_split CHR ''/'' name = [name]" by (rule str_split_line)
  ultimately show ?thesis using assms(2,3) by (simp add: path_div_def Path_def Let_def)
qed

lemma path_div_name_parent:
  assumes "CHR ''/'' \<notin> set name" and "name \<noteq> []" and "name \<noteq> ''.''"
  shows "path_parent (path_div dir name) = dir" and "path_final (path_div dir name) = name"
  unfolding path_div_name[OF assms] by (simp_all add: path_parent_def path_final_def)

lemma image_filename_component:
  assumes "CHR ''/'' \<notin> set document_id" and "CHR ''/'' \<notin> set idx" and "CHR ''/'' \<notin> set h"
    and "CHR ''/'' \<notin> set ext"
  shows "CHR ''/'' \<notin> set (document_id @ ''_img_'' @ idx @ ''_'' @ h @ ''.'' @ ext)"
    and "document_id @ ''_img_'' @ idx @ ''_'' @ h @ ''.'' @ ext \<noteq> []"
    and "document_id @ ''_img_'' @ idx @ ''_'' @ h @ ''.'' @ ext \<noteq> ''.''"
proof -
  show "CHR ''/'' \<notin> set (document_id @ ''_img_'' @ idx @ ''_'' @ h @ ''.'' @ ext)"
    using assms by simp
  show "document_id @ ''_img_'' @ idx @ ''_'' @ h @ ''.'' @ ext \<noteq> []" by simp
  have "1 < length (document_id @ ''_img_'' @ idx @ ''_'' @ h @ ''.'' @ ext)" by simp
  then show "document_id @ ''_img_'' @ idx @ ''_'' @ h @ ''.'' @ ext \<noteq> ''.''" by auto
qed


lemma extract_loop_names:
  "(path, ref) \<in> set (extract_loop env image_dir document_id idx images) \<Longrightarrow>
     \<exists>i < length images. pil_image (images ! i) = Some True
        \<and> path = path_str (path_div image_dir
                 (document_id @ ''_img_'' @ str_nat (idx + i + 1) @ ''_''
                    @ take 8 (md5_hexdigest env (str_encode (picture_str (images ! i)))) @ ''.png''))
        \<and> ref = ''/uploads/images/'' @ document_id @ ''_img_'' @ str_nat (idx + i + 1) @ ''_''
                    @ take 8 (md5_hexdigest env (str_encode (picture_str (images ! i)))) @ ''.png''"
proof (induction images arbitrary: idx)
  case Nil
  then show ?case by simp
next
  case (Cons image_data images)
  let ?name = "document_id @ ''_img_'' @ str_nat (idx + 1) @ ''_''
                 @ take 8 (md5_hexdigest env (str_encode (picture_str image_data))) @ ''.png''"
  from Cons.prems have "(pil_image image_data = Some True
        \<and> (path, ref) = (path_str (path_div image_dir ?name), ''/uploads/images/'' @ ?name))
      \<or> (path, ref) \<in> set (extract_loop env image_dir document_id (idx + 1) images)"
    by (auto simp: Let_def split: if_splits)
  then show ?case
  proof
    assume "pil_image image_data = Some True
        \<and> (path, ref) = (path_str (path_div image_dir ?name), ''/uploads/images/'' @ ?name)"
    then show ?thesis by (intro exI[of _ 0]) simp
  next
    assume "(path, ref) \<in> set (extract_loop env image_dir document_id (idx + 1) images)"
    from Cons.IH[OF this] obtain i where "i < length images"
      and "pil_image (images ! i) = Some True"
      and "path = path_str (path_div image_dir
                 (document_id @ ''_img_'' @ str_nat (idx + 1 + i + 1) @ ''_''
                    @ take 8 (md5_hexdigest env (str_encode (picture_str (images ! i)))) @ ''.png''))"
      and "ref = ''/uploads/images/'' @ document_id @ ''_img_'' @ str_nat (idx + 1 + i + 1) @ ''_''
                    @ take 8 (md5_hexdigest env (str_encode (picture_str (images ! i)))) @ ''.png''"
      by blast
    then show ?thesis by (intro exI[of _ "Suc i"]) simp
  qed
qed

text \<open>
  Claim C9, as the code has it. An image that \<open>save_image\<close> persists is written to
  \<open>output_dir / filename\<close> with the filename \<open>{documentId}_img_{index}_{hash}.{ext}\<close>,
  where the hash is the first eight characters of the MD5 hex digest of the image bytes
  (eight hexadecimal digits in lower case) and the extension is the format in lower
  case; the returned reference is \<open>/uploads/images/\<close> followed by that filename; when
  neither the document id nor the format holds a \<open>/\<close>, the file is directly in the
  configured directory: its parent is the directory and its name is the filename. For
  the service's \<open>_extract_and_save_images\<close>, each file written and reference returned
  belongs to a picture that has a \<open>pil_image\<close>, and has a name of the same form with
  the index of the picture counted from 1, the extension \<open>png\<close>, and for the hash the
  first eight characters of the MD5 hex digest that the service takes, which is that of
  the encoded string form of the picture; the file is directly in the image directory
  when the document id holds no \<open>/\<close>.
\<close>

theorem image_naming:
  "(save_image env output_dir image_data document_id image_index fmt = (Some file_path, Some ref)
      \<longrightarrow> file_path = path_div output_dir
                  (document_id @ ''_img_'' @ str_int image_index @ ''_''
                     @ take 8 (md5_hexdigest env image_data) @ ''.'' @ str_lower fmt)
          \<and> ref = ''/uploads/images/'' @ document_id @ ''_img_'' @ str_int image_index @ ''_''
                     @ take 8 (md5_hexdigest env image_data) @ ''.'' @ str_lower fmt
          \<and> (CHR ''/'' \<notin> set document_id \<and> CHR ''/'' \<notin> set fmt \<longrightarrow>
                path_parent file_path = output_dir
                \<and> path_final file_path = document_id @ ''_img_'' @ str_int image_index @ ''_''
                     @ take 8 (md5_hexdigest env image_data) @ ''.'' @ str_lower fmt))
   \<and> length (take 8 (md5_hexdigest env image_data)) = 8
   \<and> set (take 8 (md5_hexdigest env image_data)) \<subseteq> set ''0123456789abcdef''
   \<and> ((path, ref') \<in> set (extract_and_save_images env image_dir images document_id)
      \<longrightarrow> (\<exists>i < length images. pil_image (images ! i) = Some True
            \<and> path = path_str (path_div image_dir
                     (document_id @ ''_img_'' @ str_nat (i + 1) @ ''_''
                        @ take 8 (md5_hexdigest env (str_encode (picture_str (images ! i)))) @ ''.png''))
            \<and> ref' = ''/uploads/images/'' @ document_id @ ''_img_'' @ str_nat (i + 1) @ ''_''
                        @ take 8 (md5_hexdigest env (str_encode (picture_str (images ! i)))) @ ''.png''
            \<and> (CHR ''/'' \<notin> set document_id \<longrightarrow>
                  path_parent (path_div image_dir
                     (document_id @ ''_img_'' @ str_nat (i + 1) @ ''_''
                        @ take 8 (md5_hexdigest env (str_encode (picture_str (images ! i)))) @ ''.png''))
                    = image_dir
                  \<and> path_final (path_div image_dir
                     (document_id @ ''_img_'' @ str_nat (i + 1) @ ''_''
                        @ take 8 (md5_hexdigest env (str_encode (picture_str (images ! i)))) @ ''.png''))
                    = document_id @ ''_img_'' @ str_nat (i + 1) @ ''_''
                        @ take 8 (md5_hexdigest env (str_encode (picture_str (images ! i)))) @ ''.png'')))"
proof (intro conjI impI)
  let ?name = "document_id @ ''_img_'' @ str_int image_index @ ''_''
                 @ take 8 (md5_hexdigest env image_data) @ ''.'' @ str_lower fmt"
  assume s: "save_image env output_dir image_data document_id image_index fmt = (Some file_path, Some ref)"
  then show p: "file_path = path_div output_dir ?name"
    by (auto simp: save_image_def Let_def split: if_splits)
  from s show "ref = ''/uploads/images/'' @ ?name"
    by (auto simp: save_image_def Let_def split: if_splits)
  assume "CHR ''/'' \<notin> set document_id \<and> CHR ''/'' \<notin> set fmt"
  then have doc: "CHR ''/'' \<notin> set document_id" and ext: "CHR ''/'' \<notin> set (str_lower fmt)"
    by (simp_all add: str_lower_slash)
  note c = image_filename_component[OF doc str_int_no_slash image_hash_no_slash ext]
  from path_div_name_parent[OF c] show "path_parent file_path = output_dir"
    and "path_final file_path = ?name"
    unfolding p by blast+
next
  show "length (take 8 (md5_hexdigest env image_data)) = 8" by (rule image_hash_hex)
  show "set (take 8 (md5_hexdigest env image_data)) \<subseteq> set ''0123456789abcdef''"
    by (rule image_hash_hex)
next
  assume "(path, ref') \<in> set (extract_and_save_images env image_dir images document_id)"
  then have "(path, ref') \<in> set (extract_loop env image_dir document_id 0 images)"
    by (simp add: extract_and_save_images_def)
  from extract_loop_names[OF this] obtain i where i: "i < length images"
    and ok: "pil_image (images ! i) = Some True"
    and p: "path = path_str (path_div image_dir
                     (document_id @ ''_img_'' @ str_nat (i + 1) @ ''_''
                        @ take 8 (md5_hexdigest env (str_encode (picture_str (images ! i)))) @ ''.png''))"
    and r: "ref' = ''/uploads/images/'' @ document_id @ ''_img_'' @ str_nat (i + 1) @ ''_''
                        @ take 8 (md5_hexdigest env (str_encode (picture_str (images ! i)))) @ ''.png''"
    by auto
  have digits: "CHR ''/'' \<notin> set (str_nat (i + 1))" using str_nat_digits[of "CHR ''/''"] by auto
  have png: "CHR ''/'' \<notin> set ''png''" by simp
  have inside: "path_parent (path_div image_dir
                     (document_id @ ''_img_'' @ str_nat (i + 1) @ ''_''
                        @ take 8 (md5_hexdigest env (str_encode (picture_str (images ! i)))) @ ''.png''))
                    = image_dir
                  \<and> path_final (path_div image_dir
                     (document_id @ ''_img_'' @ str_nat (i + 1) @ ''_''
                        @ take 8 (md5_hexdigest env (str_encode (picture_str (images ! i)))) @ ''.png''))
                    = document_id @ ''_img_'' @ str_nat (i + 1) @ ''_''
                        @ take 8 (md5_hexdigest env (str_encode (picture_str (images ! i)))) @ ''.png''"
    if doc: "CHR ''/'' \<notin> set document_id"
    using path_div_name_parent[OF image_filename_component[OF doc digits image_hash_no_slash png],
        of image_dir env "str_encode (picture_str (images ! i))"]
    by simp
  from i ok p r inside show "\<exists>i < length images. pil_image (images ! i) = Some True
            \<and> path = path_str (path_div image_dir
                     (document_id @ ''_img_'' @ str_nat (i + 1) @ ''_''
                        @ take 8 (md5_hexdigest env (str_encode (picture_str (images ! i)))) @ ''.png''))
            \<and> ref' = ''/uploads/images/'' @ document_id @ ''_img_'' @ str_nat (i + 1) @ ''_''
                        @ take 8 (md5_hexdigest env (str_encode (picture_str (images ! i)))) @ ''.png''
            \<and> (CHR ''/'' \<notin> set document_id \<longrightarrow>
                  path_parent (path_div image_dir
                     (document_id @ ''_img_'' @ str_nat (i + 1) @ ''_''
                        @ take 8 (md5_hexdigest env (str_encode (picture_str (images ! i)))) @ ''.png''))
                    = image_dir
                  \<and> path_final (path_div image_dir
                     (document_id @ ''_img_'' @ str_nat (i + 1) @ ''_''
                        @ take 8 (md5_hexdigest env (str_encode (picture_str (images ! i)))) @ ''.png''))
                    = document_id @ ''_img_'' @ str_nat (i + 1) @ ''_''
                        @ take 8 (md5_hexdigest env (str_encode (picture_str (images ! i)))) @ ''.png'')"
    by blast
qed

lemma hex_digits_numeral:
  "hex_digits (numeral k) n
     = hex_digits (pred_numeral k) (n div 16) @ [''0123456789abcdef'' ! (n mod 16)]"
  unfolding numeral_eq_Suc[of k] by (rule hex_digits.simps)

lemma hex_digits_One: "hex_digits 1 n = [''0123456789abcdef'' ! (n mod 16)]"
  by (simp add: One_nat_def del: One_nat_def[symmetric])

lemma image_hash_example:
  "take 8 (md5_hexdigest image_env_example png_signature) = ''e9dd2797''"
  "take 8 (md5_hexdigest image_env_example (str_encode ''picture'')) = ''5456fc54''"
proof -
  have e: "str_encode ''picture'' = ''picture''" by code_simp
  show "take 8 (md5_hexdigest image_env_example png_signature) = ''e9dd2797''"
    by (simp add: md5_hexdigest_def image_env_example_def hex_digits_numeral hex_digits_One)
  show "take 8 (md5_hexdigest image_env_example (str_encode ''picture'')) = ''5456fc54''"
    unfolding e
    by (simp add: md5_hexdigest_def image_env_example_def png_signature_def hex_digits_numeral
        hex_digits_One)
qed

lemma image_dir_example:
  "Path ''/srv/public/uploads/images''
     = \<lparr>path_root = ''/'', path_parts = [''srv'', ''public'', ''uploads'', ''images'']\<rparr>"
  by code_simp

lemma image_path_example:
  "path_div (Path ''/srv/public/uploads/images'') ''doc123_img_1_e9dd2797.png''
     = \<lparr>path_root = ''/'',
        path_parts = [''srv'', ''public'', ''uploads'', ''images'', ''doc123_img_1_e9dd2797.png'']\<rparr>"
  "path_str (path_div (Path ''/srv/public/uploads/images'') ''doc123_img_2_5456fc54.png'')
     = ''/srv/public/uploads/images/doc123_img_2_5456fc54.png''"
  "path_div (Path ''/srv/public/uploads/images'') ''../../x_img_1_e9dd2797.png''
     = \<lparr>path_root = ''/'',
        path_parts = [''srv'', ''public'', ''uploads'', ''images'', ''..'', ''..'',
                      ''x_img_1_e9dd2797.png'']\<rparr>"
  by code_simp+

lemma image_index_example: "str_int 1 = ''1''" "str_nat (Suc 0) = ''1''"
  "str_nat (Suc (Suc 0)) = ''2''"
  "str_lower ''PNG'' = ''png''"
  by code_simp+

lemma save_image_example:
  "save_image image_env_example (Path ''/srv/public/uploads/images'') png_signature ''doc123'' 1 ''PNG''
     = (Some \<lparr>path_root = ''/'',
              path_parts = [''srv'', ''public'', ''uploads'', ''images'', ''doc123_img_1_e9dd2797.png'']\<rparr>,
        Some ''/uploads/images/doc123_img_1_e9dd2797.png'')"
proof -
  have ok: "image_ok image_env_example png_signature ''PNG''" by (simp add: image_env_example_def)
  show ?thesis
    unfolding save_image_def Let_def image_hash_example image_index_example
    using ok by (simp add: image_path_example)
qed

lemma extract_example:
  "extract_and_save_images image_env_example (Path ''/srv/public/uploads/images'')
      [\<lparr>picture_str = ''no image'', pil_image = None\<rparr>,
       \<lparr>picture_str = ''picture'', pil_image = Some True\<rparr>] ''doc123''
     = [(''/srv/public/uploads/images/doc123_img_2_5456fc54.png'',
         ''/uploads/images/doc123_img_2_5456fc54.png'')]"
  by (simp add: extract_and_save_images_def Let_def image_hash_example image_index_example
      image_path_example)

theorem image_naming_witness:
  "save_image image_env_example (Path ''/srv/public/uploads/images'') png_signature ''doc123'' 1 ''PNG''
     = (Some \<lparr>path_root = ''/'',
              path_parts = [''srv'', ''public'', ''uploads'', ''images'', ''doc123_img_1_e9dd2797.png'']\<rparr>,
        Some ''/uploads/images/doc123_img_1_e9dd2797.png'')
   \<and> path_parent \<lparr>path_root = ''/'',
         path_parts = [''srv'', ''public'', ''uploads'', ''images'', ''doc123_img_1_e9dd2797.png'']\<rparr>
       = Path ''/srv/public/uploads/images''
   \<and> path_final \<lparr>path_root = ''/'',
         path_parts = [''srv'', ''public'', ''uploads'', ''images'', ''doc123_img_1_e9dd2797.png'']\<rparr>
       = ''doc123_img_1_e9dd2797.png''
   \<and> extract_and_save_images image_env_example (Path ''/srv/public/uploads/images'')
        [\<lparr>picture_str = ''no image'', pil_image = None\<rparr>,
         \<lparr>picture_str = ''picture'', pil_image = Some True\<rparr>] ''doc123''
       = [(''/srv/public/uploads/images/doc123_img_2_5456fc54.png'',
           ''/uploads/images/doc123_img_2_5456fc54.png'')]"
  using image_naming[where env = image_env_example
      and output_dir = "Path ''/srv/public/uploads/images''"
      and image_data = png_signature and document_id = "''doc123''" and image_index = 1
      and fmt = "''PNG''"
      and file_path = "\<lparr>path_root = ''/'',
              path_parts = [''srv'', ''public'', ''uploads'', ''images'', ''doc123_img_1_e9dd2797.png'']\<rparr>"
      and ref = "''/uploads/images/doc123_img_1_e9dd2797.png''"
      and image_dir = "Path ''/srv/public/uploads/images''"
      and images = "[\<lparr>picture_str = ''no image'', pil_image = None\<rparr>,
         \<lparr>picture_str = ''picture'', pil_image = Some True\<rparr>]"
      and path = "''/srv/public/uploads/images/doc123_img_2_5456fc54.png''"
      and ref' = "''/uploads/images/doc123_img_2_5456fc54.png''"]
    save_image_example extract_example
  by (simp add: image_dir_example path_parent_def path_final_def)

text \<open>
  The name the code gives has \<open>_img_\<close> between the document id and the index; it is
  not \<open>{documentId}_{index}_{hash}.{ext}\<close>.
\<close>

theorem image_naming_counterexample:
  "snd (save_image image_env_example (Path ''/srv/public/uploads/images'') png_signature
          ''doc123'' 1 ''PNG'')
     = Some ''/uploads/images/doc123_img_1_e9dd2797.png''
   \<and> take 8 (md5_hexdigest image_env_example png_signature) = ''e9dd2797''
   \<and> ''doc123_img_1_e9dd2797.png''
       \<noteq> ''doc123'' @ ''_'' @ str_int 1 @ ''_''
           @ take 8 (md5_hexdigest image_env_example png_signature) @ ''.'' @ str_lower ''PNG''"
  unfolding image_hash_example image_index_example by (simp add: save_image_example)

text \<open>
  A document id with \<open>/\<close> in it takes the file out of the configured directory: the
  code joins the name to the directory as it is.
\<close>

lemma save_image_outside_example:
  "fst (save_image image_env_example (Path ''/srv/public/uploads/images'') png_signature
          ''../../x'' 1 ''PNG'')
     = Some \<lparr>path_root = ''/'',
             path_parts = [''srv'', ''public'', ''uploads'', ''images'', ''..'', ''..'',
                           ''x_img_1_e9dd2797.png'']\<rparr>"
proof -
  have ok: "image_ok image_env_example png_signature ''PNG''" by (simp add: image_env_example_def)
  show ?thesis
    unfolding save_image_def Let_def image_hash_example image_index_example
    using ok by (simp add: image_path_example)
qed

end
